theory Spec2Isabelle
  imports Main "HOL-Library.AList" "HOL-Library.Dlist"
begin

section \<open>The attribute dispatcher of \<open>library/src/lib/core.ts\<close>\<close>

text \<open>
  The class \<open>Datastar\<close> is embedded with explicit state passing. Everything the class
  imports from modules that are not part of \<open>core.ts\<close> is a parameter: the built-in plugin and
  preprocessor lists, the merge-patch function, the host's compiler of function bodies
  (\<open>new Function\<close>), regular expressions (given by what they match) and the plugins' handlers.
\<close>

subsection \<open>Strings of the host language\<close>

text \<open>\<open>s.startsWith(pre)\<close>.\<close>

definition startsWith :: "string \<Rightarrow> string \<Rightarrow> bool" where
  "startsWith s pre = (take (length pre) s = pre)"

text \<open>\<open>s.split(c)\<close> for a separator of one character: never the empty array.\<close>

fun split :: "char \<Rightarrow> string \<Rightarrow> string list" where
  "split c [] = [[]]"
| "split c (x # xs) =
     (if x = c then [] # split c xs
      else (case split c xs of [] \<Rightarrow> [[x]] | w # ws \<Rightarrow> (x # w) # ws))"

text \<open>\<open>xs.join(sep)\<close>.\<close>

fun join :: "string \<Rightarrow> string list \<Rightarrow> string" where
  "join sep [] = []"
| "join sep [x] = x"
| "join sep (x # y # ys) = x @ sep @ join sep (y # ys)"

text \<open>\<open>toLowerCase\<close> on the ASCII letters (a \<open>char\<close> is a byte).\<close>

definition lowerChar :: "char \<Rightarrow> char" where
  "lowerChar c =
     (if (65::nat) \<le> of_char c \<and> of_char c \<le> (90::nat) then char_of (of_char c + (32::nat)) else c)"

definition toLowerCase :: "string \<Rightarrow> string" where
  "toLowerCase s = map lowerChar s"

text \<open>The decimal numeral of a counter, as a template literal prints it.\<close>

fun digits :: "nat \<Rightarrow> nat \<Rightarrow> string" where
  "digits 0 n = []"
| "digits (Suc fuel) n =
     (if n < 10 then [char_of (48 + n)] else digits fuel (n div 10) @ [char_of (48 + n mod 10)])"

definition numeral_string :: "nat \<Rightarrow> string" where
  "numeral_string n = digits (Suc n) n"

text \<open>
  \<open>s.replace(pattern, replacement)\<close> with a string pattern: the first occurrence of the
  pattern is replaced, and in the replacement \<open>$$\<close>, \<open>$&\<close>, \<open>$`\<close> and \<open>$'\<close> stand for a dollar
  sign, the matched text, the text before it and the text after it.
\<close>

fun getSubstitution :: "string \<Rightarrow> string \<Rightarrow> string \<Rightarrow> string \<Rightarrow> string" where
  "getSubstitution matched front rest [] = []"
| "getSubstitution matched front rest [c] = [c]"
| "getSubstitution matched front rest (c # d # r) =
     (if c = CHR ''$'' \<and> d = CHR ''$'' then CHR ''$'' # getSubstitution matched front rest r
      else if c = CHR ''$'' \<and> d = CHR ''&'' then matched @ getSubstitution matched front rest r
      else if c = CHR ''$'' \<and> d = CHR 0x60 then front @ getSubstitution matched front rest r
      else if c = CHR ''$'' \<and> d = CHR 0x27 then rest @ getSubstitution matched front rest r
      else c # getSubstitution matched front rest (d # r))"

fun replace_from :: "string \<Rightarrow> string \<Rightarrow> string \<Rightarrow> string \<Rightarrow> string" where
  "replace_from front [] pat rep =
     (if startsWith [] pat then front @ getSubstitution pat front [] rep else front)"
| "replace_from front (x # xs) pat rep =
     (if startsWith (x # xs) pat
      then front @ getSubstitution pat front (drop (length pat) (x # xs)) rep
             @ drop (length pat) (x # xs)
      else replace_from (front @ [x]) xs pat rep)"

definition replace :: "string \<Rightarrow> string \<Rightarrow> string \<Rightarrow> string" where
  "replace s pat rep = replace_from [] s pat rep"

subsection \<open>The document\<close>

text \<open>
  An element has an identity (\<open>ref\<close>, what the \<open>Map\<close> of removals is keyed by), the answer of
  \<open>toHTMLorSVGElement\<close> (whether it is an HTML or SVG element), its \<open>id\<close>, its tag name, its
  \<open>dataset\<close> in attribute order and its child elements.
\<close>

datatype element =
  Element (ref: nat) (htmlOrSvg: bool) (el_id: string) (tagName: string)
    (dataset: "(string \<times> string) list") (children: "element list")

subsection \<open>Plugins, preprocessors and contexts\<close>

text \<open>
  A preprocessor is an object: \<open>pp_ref\<close> is its identity, which is what the \<open>Set\<close> of applied
  preprocessors compares. Its regular expression is given by \<open>matchAll\<close>, the named groups of
  each match in order (\<open>None\<close> for a match without named groups).
\<close>

record preprocesser =
  pp_ref :: nat
  matchAll :: "string \<Rightarrow> (string \<times> string) list option list"
  replacer :: "(string \<times> string) list \<Rightarrow> string"

text \<open>
  The context handed to \<open>onLoad\<close>. \<open>ctx_store\<close> is the handle of the store instance the
  dispatcher held when the context was built; \<open>ctx_expressionFn\<close> is the compiled function
  body, or \<open>None\<close> for the stub that throws. The fields that never change (actions, refs,
  reactivity) and the three bound methods are left out.
\<close>

record attributeContext =
  ctx_store :: nat
  ctx_el :: element
  ctx_key :: string
  ctx_expression :: string
  ctx_expressionFn :: "string option"
  ctx_modifiers :: "(string \<times> string list) list"

text \<open>
  What a handler does with its context, as far as the dispatcher's state goes: the partial
  updates it passes to \<open>ctx.mergeStore\<close>, in order, and the teardown it returns (a function
  object, given by its identity). Handlers that call back into \<open>applyPlugins\<close> or
  \<open>cleanupElementRemovals\<close>, or that throw, are outside this model.
\<close>

record 'v loaded =
  merges :: "'v list"
  removal :: "nat option"

text \<open>A regular expression of \<open>allowedTagRegexps\<close> is given by the strings it matches.\<close>

record 'v attributePlugin =
  prefix :: string
  requiredPluginPrefixes :: "string list option"
  mustHaveEmptyKey :: bool
  mustNotEmptyKey :: bool
  mustHaveEmptyExpression :: bool
  mustNotEmptyExpression :: bool
  allowedTagRegexps :: "(string \<Rightarrow> bool) list option"
  allowedModifiers :: "string list option"
  preprocessors :: "preprocesser list option"
  bypassExpressionFunctionCreation :: "(attributeContext \<Rightarrow> bool) option"
  onLoad :: "attributeContext \<Rightarrow> 'v loaded"

text \<open>The errors the dispatcher throws, with the names its messages print.\<close>

datatype error =
    NoPluginsProvided
  | PluginRequires string string
  | TagNotAllowed string string
  | MustHaveEmptyKey string
  | MustNotEmptyKey string
  | ModifierNotAllowed string
  | MustHaveEmptyExpression string
  | MustNotEmptyExpression string

text \<open>
  What the dispatcher does to the world outside it, in order: a teardown invoked for an
  element, an \<open>id\<close> written to an element, a handler called, and the two lines that
  \<open>console.error\<close> prints when a function body does not compile.
\<close>

datatype event =
    Removal nat nat
  | AssignId nat string
  | OnLoad nat attributeContext
  | ConsoleErrorException string
  | ConsoleError string

text \<open>
  The fields of the class. \<open>store\<close> is the handle of the live store instance and \<open>heap\<close> holds
  the value of every instance \<open>deepSignal\<close> has created, by handle; \<open>removals\<close> maps an
  element to its \<open>Set\<close> of teardowns (a list without duplicates, newest first); \<open>events\<close> is
  the trace.
\<close>

record 'v datastar =
  plugins :: "'v attributePlugin list"
  store :: nat
  heap :: "'v list"
  parentID :: string
  missingIDNext :: nat
  removals :: "nat \<Rightarrow> nat dlist option"
  events :: "event list"

text \<open>
  What \<open>core.ts\<close> imports and this development takes as given: the lists \<open>CorePlugins\<close> and
  \<open>CorePreprocessors\<close> of \<open>plugins/core\<close>, the empty object that the first store is made
  of, the function \<open>apply\<close> of \<open>ts-merge-patch\<close>, and whether \<open>new Function\<close> accepts a
  function body.
\<close>

record 'v host =
  CorePlugins :: "'v attributePlugin list"
  CorePreprocessors :: "preprocesser list"
  emptyObject :: 'v
  apply_patch :: "'v \<Rightarrow> 'v \<Rightarrow> 'v"
  compiles :: "string \<Rightarrow> bool"

subsection \<open>The constructor\<close>

text \<open>
  The loop of the constructor over the combined list: \<open>known\<close> is \<open>allPluginPrefixes\<close>,
  \<open>acc\<close> is \<open>this.plugins\<close>.
\<close>

fun register ::
  "'v attributePlugin list \<Rightarrow> string set \<Rightarrow> 'v attributePlugin list \<Rightarrow> error + 'v attributePlugin list"
where
  "register [] known acc = Inr acc"
| "register (p # ps) known acc =
     (case (case requiredPluginPrefixes p of
              None \<Rightarrow> None
            | Some rs \<Rightarrow> find (\<lambda>r. r \<notin> known) rs) of
        Some r \<Rightarrow> Inl (PluginRequires (prefix p) r)
      | None \<Rightarrow> register ps (insert (prefix p) known) (acc @ [p]))"

definition constructor :: "'v host \<Rightarrow> 'v attributePlugin list \<Rightarrow> error + 'v datastar" where
  "constructor h user =
     (let ps = CorePlugins h @ user in
      if ps = [] then Inl NoPluginsProvided
      else (case register ps {} [] of
              Inl e \<Rightarrow> Inl e
            | Inr registered \<Rightarrow>
                Inr \<lparr>plugins = registered, store = 0, heap = [emptyObject h], parentID = [],
                     missingIDNext = 0, removals = (\<lambda>_. None), events = []\<rparr>))"

subsection \<open>Teardowns and the store\<close>

text \<open>\<open>cleanupElementRemovals\<close>: a \<open>Set\<close> is iterated in insertion order.\<close>

definition cleanupElementRemovals :: "nat \<Rightarrow> 'v datastar \<Rightarrow> 'v datastar" where
  "cleanupElementRemovals el s =
     (case removals s el of
        None \<Rightarrow> s
      | Some removalSet \<Rightarrow>
          s\<lparr>events := events s @ map (Removal el) (rev (list_of_dlist removalSet)),
            removals := (removals s)(el := None)\<rparr>)"

text \<open>\<open>mergeStore\<close>: \<open>deepSignal\<close> makes a new instance, and \<open>this.store\<close> is pointed at it.\<close>

definition mergeStore :: "'v host \<Rightarrow> 'v \<Rightarrow> 'v datastar \<Rightarrow> 'v datastar" where
  "mergeStore h patch s =
     (let revisedStore = apply_patch h (heap s ! store s) patch
      in s\<lparr>heap := heap s @ [revisedStore], store := length (heap s)\<rparr>)"

text \<open>Lines 200 to 203: the teardown a handler returned joins the element's set.\<close>

definition addRemoval :: "nat \<Rightarrow> nat \<Rightarrow> 'v datastar \<Rightarrow> 'v datastar" where
  "addRemoval el f s =
     s\<lparr>removals := (removals s)(el \<mapsto>
          Dlist.insert f (case removals s el of None \<Rightarrow> Dlist.empty | Some d \<Rightarrow> d))\<rparr>"

subsection \<open>Preprocessing an expression\<close>

text \<open>\<open>const { whole } = groups\<close>; a group that is not there prints as \<open>undefined\<close>.\<close>

definition whole_of :: "(string \<times> string) list \<Rightarrow> string" where
  "whole_of groups = (case map_of groups ''whole'' of None \<Rightarrow> ''undefined'' | Some w \<Rightarrow> w)"

text \<open>The loop over the matches, which were all found before the first replacement.\<close>

fun rewrite_matches ::
  "preprocesser \<Rightarrow> (string \<times> string) list option list \<Rightarrow> string \<Rightarrow> string"
where
  "rewrite_matches processor [] expression = expression"
| "rewrite_matches processor (m # ms) expression =
     (case m of
        None \<Rightarrow> rewrite_matches processor ms expression
      | Some groups \<Rightarrow>
          rewrite_matches processor ms
            (replace expression (whole_of groups) (replacer processor groups)))"

definition rewrite :: "preprocesser \<Rightarrow> string \<Rightarrow> string" where
  "rewrite processor expression =
     rewrite_matches processor (matchAll processor expression) expression"

text \<open>
  The loop over the processors. \<open>applied\<close> is the set \<open>appliedProcessors\<close>; the third
  component lists the processors whose rewrite was run, in order.
\<close>

fun run_processors ::
  "preprocesser list \<Rightarrow> nat set \<Rightarrow> string \<Rightarrow> nat list \<Rightarrow> nat set \<times> string \<times> nat list"
where
  "run_processors [] applied expression runs = (applied, expression, runs)"
| "run_processors (processor # processors) applied expression runs =
     (if pp_ref processor \<in> applied then run_processors processors applied expression runs
      else run_processors processors (insert (pp_ref processor) applied)
             (rewrite processor expression) (runs @ [pp_ref processor]))"

text \<open>Lines 101 and 151 to 164: the set is cleared for every attribute occurrence.\<close>

definition preprocess :: "'v host \<Rightarrow> 'v attributePlugin \<Rightarrow> string \<Rightarrow> nat set \<times> string \<times> nat list" where
  "preprocess h p expression =
     run_processors
       (CorePreprocessors h @ (case preprocessors p of None \<Rightarrow> [] | Some ps \<Rightarrow> ps))
       {} expression []"

subsection \<open>Parsing and validating an attribute\<close>

text \<open>Lines 103 to 114.\<close>

definition check_tag :: "'v attributePlugin \<Rightarrow> element \<Rightarrow> string \<Rightarrow> error option" where
  "check_tag p el dsKey =
     (case allowedTagRegexps p of
        None \<Rightarrow> None
      | Some rs \<Rightarrow>
          (let lowerCaseTag = toLowerCase (tagName el) in
           if list_ex (\<lambda>r. r lowerCaseTag) rs then None
           else Some (TagNotAllowed (tagName el) dsKey)))"

text \<open>Lines 116 and 117: \<open>let [key, ...modifiersWithArgsArr] = keyRaw.split('.')\<close>.\<close>

definition split_key :: "'v attributePlugin \<Rightarrow> string \<Rightarrow> string \<times> string list" where
  "split_key p dsKey =
     (let keyRaw = drop (length (prefix p)) dsKey in
      case split CHR ''.'' keyRaw of [] \<Rightarrow> ([], []) | key # ms \<Rightarrow> (key, ms))"

text \<open>Lines 118 to 123.\<close>

definition check_key :: "'v attributePlugin \<Rightarrow> string \<Rightarrow> error option" where
  "check_key p dsKey =
     (let key = fst (split_key p dsKey) in
      if mustHaveEmptyKey p \<and> length key > 0 then Some (MustHaveEmptyKey dsKey)
      else if mustNotEmptyKey p \<and> length key = 0 then Some (MustNotEmptyKey dsKey)
      else None)"

text \<open>Lines 124 to 126.\<close>

definition normalise_key :: "string \<Rightarrow> string" where
  "normalise_key key = (case key of [] \<Rightarrow> [] | c # cs \<Rightarrow> lowerChar c # cs)"

text \<open>Lines 128 to 131.\<close>

definition modifiersArr :: "'v attributePlugin \<Rightarrow> string \<Rightarrow> (string \<times> string list) list" where
  "modifiersArr p dsKey =
     map (\<lambda>m. case split CHR ''_'' m of [] \<Rightarrow> ([], []) | label # args \<Rightarrow> (label, args))
       (snd (split_key p dsKey))"

text \<open>Lines 132 to 138.\<close>

definition check_modifiers :: "'v attributePlugin \<Rightarrow> string \<Rightarrow> error option" where
  "check_modifiers p dsKey =
     (case allowedModifiers p of
        None \<Rightarrow> None
      | Some allowed \<Rightarrow>
          (case find (\<lambda>modifier. fst modifier \<notin> set allowed) (modifiersArr p dsKey) of
             None \<Rightarrow> None
           | Some modifier \<Rightarrow> Some (ModifierNotAllowed (fst modifier))))"

text \<open>Lines 139 to 142: \<open>Map.set\<close> keeps the place of a label that is already there.\<close>

definition modifier_map :: "(string \<times> string list) list \<Rightarrow> (string \<times> string list) list" where
  "modifier_map ms = foldl (\<lambda>m modifier. AList.update (fst modifier) (snd modifier) m) [] ms"

text \<open>Lines 144 to 149.\<close>

definition check_expression :: "'v attributePlugin \<Rightarrow> string \<Rightarrow> string \<Rightarrow> error option" where
  "check_expression p dsKey expression =
     (if mustHaveEmptyExpression p \<and> length expression > 0 then Some (MustHaveEmptyExpression dsKey)
      else if mustNotEmptyExpression p \<and> length expression = 0 then Some (MustNotEmptyExpression dsKey)
      else None)"

text \<open>The four checks in the order of lines 103 to 149; the first that fails throws.\<close>

definition validate :: "'v attributePlugin \<Rightarrow> element \<Rightarrow> string \<Rightarrow> string \<Rightarrow> error option" where
  "validate p el dsKey expression =
     (case check_tag p el dsKey of
        Some e \<Rightarrow> Some e
      | None \<Rightarrow>
          (case check_key p dsKey of
             Some e \<Rightarrow> Some e
           | None \<Rightarrow>
               (case check_modifiers p dsKey of
                  Some e \<Rightarrow> Some e
                | None \<Rightarrow> check_expression p dsKey expression)))"

subsection \<open>Compiling an expression\<close>

text \<open>Line 186: \<open>lines[lines.length - 1] = `return ${lines[lines.length - 1]}`\<close>.\<close>

fun return_last :: "string list \<Rightarrow> string list" where
  "return_last [] = []"
| "return_last [l] = [''return '' @ l]"
| "return_last (l # m # ls) = l # return_last (m # ls)"

definition fnContent :: "string \<Rightarrow> string" where
  "fnContent expression = join '';'' (return_last (split CHR '';'' expression))"

text \<open>Line 193.\<close>

definition error_message :: "string \<Rightarrow> string \<Rightarrow> string \<Rightarrow> string" where
  "error_message content ident tag =
     ''Error evaluating expression '' @ [CHR 0x27] @ content @ [CHR 0x27] @ '' on '' @
       (if ident \<noteq> [] then ''#'' @ ident else tag)"

subsection \<open>One attribute, one element, one walk\<close>

datatype flow = Continue | Return | Throw error

definition with_id :: "string \<Rightarrow> element \<Rightarrow> element" where
  "with_id ident el = Element (ref el) (htmlOrSvg el) ident (tagName el) (dataset el) (children el)"

text \<open>Lines 97 to 99.\<close>

definition assign_id :: "element \<Rightarrow> string \<Rightarrow> 'v datastar \<Rightarrow> string \<times> 'v datastar" where
  "assign_id el ident s =
     (if length ident = 0
      then (let fresh = ''ds-'' @ parentID s @ ''-'' @ numeral_string (missingIDNext s)
            in (fresh, s\<lparr>missingIDNext := Suc (missingIDNext s),
                         events := events s @ [AssignId (ref el) fresh]\<rparr>))
      else (ident, s))"

text \<open>Lines 198 to 204, with the calls of \<open>ctx.mergeStore\<close> the handler makes.\<close>

definition invoke :: "'v host \<Rightarrow> 'v attributePlugin \<Rightarrow> nat \<Rightarrow> element \<Rightarrow> attributeContext \<Rightarrow> 'v datastar \<Rightarrow> 'v datastar" where
  "invoke h p pi el ctx s =
     (let r = onLoad p ctx;
          s1 = s\<lparr>events := events s @ [OnLoad pi ctx]\<rparr>;
          s2 = foldl (\<lambda>t patch. mergeStore h patch t) s1 (merges r)
      in case removal r of None \<Rightarrow> s2 | Some f \<Rightarrow> addRemoval (ref el) f s2)"

text \<open>
  The body of the loop over \<open>el.dataset\<close> (lines 93 to 204) for the plugin \<open>p\<close> with index
  \<open>pi\<close>: \<open>ident\<close> is the element's \<open>id\<close> when the body starts.
\<close>

definition process_attribute ::
  "'v host \<Rightarrow> 'v attributePlugin \<Rightarrow> nat \<Rightarrow> element \<Rightarrow> string \<times> string \<Rightarrow> string \<Rightarrow> 'v datastar
     \<Rightarrow> flow \<times> string \<times> 'v datastar"
where
  "process_attribute h p pi el attr ident s =
     (let dsKey = fst attr; expression = snd attr in
      if \<not> startsWith dsKey (prefix p) then (Continue, ident, s)
      else
        (case assign_id el ident s of
           (ident1, s1) \<Rightarrow>
             (case validate p (with_id ident1 el) dsKey expression of
                Some e \<Rightarrow> (Throw e, ident1, s1)
              | None \<Rightarrow>
                  (let key = normalise_key (fst (split_key p dsKey));
                       modifiers = modifier_map (modifiersArr p dsKey);
                       expression1 = fst (snd (preprocess h p expression));
                       ctx = \<lparr>ctx_store = store s1, ctx_el = with_id ident1 el, ctx_key = key,
                              ctx_expression = expression1, ctx_expressionFn = None,
                              ctx_modifiers = modifiers\<rparr>
                   in if \<not> (case bypassExpressionFunctionCreation p of None \<Rightarrow> False | Some b \<Rightarrow> b ctx)
                         \<and> \<not> mustHaveEmptyExpression p \<and> length expression1 > 0
                      then
                        (if compiles h (fnContent expression1)
                         then (Continue, ident1,
                               invoke h p pi el (ctx\<lparr>ctx_expressionFn := Some (fnContent expression1)\<rparr>) s1)
                         else (Return, ident1,
                               s1\<lparr>events := events s1 @
                                    [ConsoleErrorException (fnContent expression1),
                                     ConsoleError (error_message (fnContent expression1) ident1 (tagName el))]\<rparr>))
                      else (Continue, ident1, invoke h p pi el ctx s1)))))"

text \<open>The loop \<open>for (const dsKey in el.dataset)\<close>: a \<open>return\<close> or a \<open>throw\<close> ends it.\<close>

fun process_attributes ::
  "'v host \<Rightarrow> 'v attributePlugin \<Rightarrow> nat \<Rightarrow> element \<Rightarrow> (string \<times> string) list \<Rightarrow> string \<Rightarrow> 'v datastar
     \<Rightarrow> error option \<times> string \<times> 'v datastar"
where
  "process_attributes h p pi el [] ident s = (None, ident, s)"
| "process_attributes h p pi el (attr # attrs) ident s =
     (case process_attribute h p pi el attr ident s of
        (Continue, ident1, s1) \<Rightarrow> process_attributes h p pi el attrs ident1 s1
      | (Return, ident1, s1) \<Rightarrow> (None, ident1, s1)
      | (Throw e, ident1, s1) \<Rightarrow> (Some e, ident1, s1))"

text \<open>
  The callback that \<open>applyPlugins\<close> gives to \<open>walkDownDOM\<close> (lines 89 to 206). It returns the
  error thrown, if any, the element's \<open>id\<close> and the state.
\<close>

definition callback ::
  "'v host \<Rightarrow> 'v attributePlugin \<Rightarrow> nat \<Rightarrow> element \<Rightarrow> 'v datastar \<Rightarrow> error option \<times> string \<times> 'v datastar"
where
  "callback h p pi el s =
     process_attributes h p pi el (dataset el) (el_id el)
       (if pi = 0 then cleanupElementRemovals (ref el) s else s)"

text \<open>
  \<open>walkDownDOM\<close>: the element, then its children from the first to the last. An element that
  \<open>toHTMLorSVGElement\<close> refuses is left alone with everything below it. An error thrown by
  the callback ends the walk.
\<close>

fun walkDownDOM ::
  "(element \<Rightarrow> 'v datastar \<Rightarrow> error option \<times> string \<times> 'v datastar) \<Rightarrow> element \<Rightarrow> 'v datastar
     \<Rightarrow> error option \<times> element \<times> 'v datastar"
and walkSiblings ::
  "(element \<Rightarrow> 'v datastar \<Rightarrow> error option \<times> string \<times> 'v datastar) \<Rightarrow> element list \<Rightarrow> 'v datastar
     \<Rightarrow> error option \<times> element list \<times> 'v datastar"
where
  "walkDownDOM cb (Element r w i t d cs) s =
     (if \<not> w then (None, Element r w i t d cs, s)
      else (case cb (Element r w i t d cs) s of
              (Some e, i1, s1) \<Rightarrow> (Some e, Element r w i1 t d cs, s1)
            | (None, i1, s1) \<Rightarrow>
                (case walkSiblings cb cs s1 of
                   (err, cs2, s2) \<Rightarrow> (err, Element r w i1 t d cs2, s2))))"
| "walkSiblings cb [] s = (None, [], s)"
| "walkSiblings cb (c # cs) s =
     (case walkDownDOM cb c s of
        (Some e, c1, s1) \<Rightarrow> (Some e, c1 # cs, s1)
      | (None, c1, s1) \<Rightarrow>
          (case walkSiblings cb cs s1 of
             (err, cs2, s2) \<Rightarrow> (err, c1 # cs2, s2)))"

text \<open>\<open>this.plugins.forEach((p, pi) => this.walkDownDOM(rootElement, ...))\<close>.\<close>

fun passes ::
  "'v host \<Rightarrow> 'v attributePlugin list \<Rightarrow> nat \<Rightarrow> element \<Rightarrow> 'v datastar
     \<Rightarrow> error option \<times> element \<times> 'v datastar"
where
  "passes h [] pi root s = (None, root, s)"
| "passes h (p # ps) pi root s =
     (case walkDownDOM (callback h p pi) root s of
        (Some e, root1, s1) \<Rightarrow> (Some e, root1, s1)
      | (None, root1, s1) \<Rightarrow> passes h ps (Suc pi) root1 s1)"

definition applyPlugins ::
  "'v host \<Rightarrow> element \<Rightarrow> 'v datastar \<Rightarrow> error option \<times> element \<times> 'v datastar"
where
  "applyPlugins h rootElement s = passes h (plugins s) 0 rootElement s"

subsection \<open>Reading a state, a trace and a document\<close>

text \<open>The teardowns registered for an element, in the order a \<open>Set\<close> iterates them.\<close>

definition teardowns :: "'v datastar \<Rightarrow> nat \<Rightarrow> nat list" where
  "teardowns s el = (case removals s el of None \<Rightarrow> [] | Some d \<Rightarrow> rev (list_of_dlist d))"

text \<open>The contexts handed to handlers, the \<open>id\<close>s written and the teardown calls of a trace.\<close>

definition contexts :: "event list \<Rightarrow> attributeContext list" where
  "contexts evs = concat (map (\<lambda>ev. case ev of OnLoad pi ctx \<Rightarrow> [ctx] | _ \<Rightarrow> []) evs)"

definition assigned :: "event list \<Rightarrow> string list" where
  "assigned evs = concat (map (\<lambda>ev. case ev of AssignId el ident \<Rightarrow> [ident] | _ \<Rightarrow> []) evs)"

definition is_Removal :: "event \<Rightarrow> bool" where
  "is_Removal ev = (case ev of Removal el f \<Rightarrow> True | _ \<Rightarrow> False)"

text \<open>The teardowns that the handler of \<open>p\<close> returned for the contexts of a trace.\<close>

definition returned :: "'v attributePlugin \<Rightarrow> event list \<Rightarrow> nat set" where
  "returned p evs = (\<Union>ctx \<in> set (contexts evs). set_option (removal (onLoad p ctx)))"

text \<open>The \<open>id\<close> that line 98 makes from the counter \<open>n\<close>.\<close>

definition missing_id :: "'v datastar \<Rightarrow> nat \<Rightarrow> string" where
  "missing_id s n = ''ds-'' @ parentID s @ ''-'' @ numeral_string n"

text \<open>
  The \<open>id\<close>s written so far are those of the counters from 0 up to \<open>missingIDNext\<close>, in that
  order: true of a dispatcher that has just been constructed.
\<close>

definition issued :: "'v datastar \<Rightarrow> bool" where
  "issued s = (assigned (events s) = map (missing_id s) [0 ..< missingIDNext s])"

text \<open>The live store is one of the instances made so far.\<close>

definition store_live :: "'v datastar \<Rightarrow> bool" where
  "store_live s = (store s < length (heap s))"

text \<open>Whether some attribute of the element starts with the plugin's prefix.\<close>

definition matching :: "'v attributePlugin \<Rightarrow> (string \<times> string) list \<Rightarrow> bool" where
  "matching p attrs = list_ex (\<lambda>attr. startsWith (fst attr) (prefix p)) attrs"

text \<open>An element with an attribute of the plugin \<open>p\<close> has an \<open>id\<close>.\<close>

definition labelled :: "'v attributePlugin \<Rightarrow> element \<Rightarrow> bool" where
  "labelled p x = (if matching p (dataset x) then el_id x \<noteq> [] else True)"

text \<open>
  The elements that \<open>walkDownDOM\<close> visits, in the order of the visits, and the teardown
  calls that flushing each element of a list makes in a state.
\<close>

fun visited :: "element \<Rightarrow> element list" where
  "visited (Element r w i t d cs) =
     (if w then Element r w i t d cs # concat (map visited cs) else [])"

definition flushed :: "'v datastar \<Rightarrow> element list \<Rightarrow> event list" where
  "flushed s xs = concat (map (\<lambda>x. map (Removal (ref x)) (teardowns s (ref x))) xs)"

text \<open>\<open>all_visited Q x\<close>: \<open>Q\<close> holds of every element that \<open>walkDownDOM\<close> visits in \<open>x\<close>.\<close>

fun all_visited :: "(element \<Rightarrow> bool) \<Rightarrow> element \<Rightarrow> bool"
and all_visited_list :: "(element \<Rightarrow> bool) \<Rightarrow> element list \<Rightarrow> bool"
where
  "all_visited Q (Element r w i t d cs) =
     (if w then Q (Element r w i t d cs) \<and> all_visited_list Q cs else True)"
| "all_visited_list Q [] = True"
| "all_visited_list Q (c # cs) = (all_visited Q c \<and> all_visited_list Q cs)"

text \<open>
  \<open>renamed R x y\<close>: the trees \<open>x\<close> and \<open>y\<close> are the same but for the \<open>id\<close>s, and the \<open>id\<close>s of the
  elements at the same place are related by \<open>R\<close>.
\<close>

fun renamed :: "(string \<Rightarrow> string \<Rightarrow> bool) \<Rightarrow> element \<Rightarrow> element \<Rightarrow> bool"
and renamed_list :: "(string \<Rightarrow> string \<Rightarrow> bool) \<Rightarrow> element list \<Rightarrow> element list \<Rightarrow> bool"
where
  "renamed R (Element r w i t d cs) (Element r' w' i' t' d' cs') =
     (r = r' \<and> w = w' \<and> t = t' \<and> d = d' \<and> R i i' \<and> renamed_list R cs cs')"
| "renamed_list R [] [] = True"
| "renamed_list R (c # cs) (c' # cs') = (renamed R c c' \<and> renamed_list R cs cs')"
| "renamed_list R [] (c' # cs') = False"
| "renamed_list R (c # cs) [] = False"

text \<open>
  An \<open>id\<close> is kept, or it was empty and is now the \<open>id\<close> of one of the counters from \<open>lo\<close> up to
  but not including \<open>hi\<close>.
\<close>

definition id_step :: "'v datastar \<Rightarrow> nat \<Rightarrow> nat \<Rightarrow> string \<Rightarrow> string \<Rightarrow> bool" where
  "id_step s lo hi a b = (b = a \<or> (a = [] \<and> b \<in> set (map (missing_id s) [lo ..< hi])))"

subsection \<open>Small instances\<close>

text \<open>
  A handler that does nothing, a plugin that declares nothing but its prefix, and the state
  of a dispatcher that has just been constructed.
\<close>

definition quiet :: "attributeContext \<Rightarrow> 'v loaded" where
  "quiet ctx = \<lparr>merges = [], removal = None\<rparr>"

definition plain :: "string \<Rightarrow> 'v attributePlugin" where
  "plain pre =
     \<lparr>prefix = pre, requiredPluginPrefixes = None, mustHaveEmptyKey = False,
      mustNotEmptyKey = False, mustHaveEmptyExpression = False, mustNotEmptyExpression = False,
      allowedTagRegexps = None, allowedModifiers = None, preprocessors = None,
      bypassExpressionFunctionCreation = None, onLoad = quiet\<rparr>"

definition started :: "'v attributePlugin list \<Rightarrow> 'v \<Rightarrow> 'v datastar" where
  "started ps v =
     \<lparr>plugins = ps, store = 0, heap = [v], parentID = [], missingIDNext = 0,
      removals = (\<lambda>_. None), events = []\<rparr>"

text \<open>
  A host with no built-ins. Its stores are flat association lists, merged key by key; its
  compiler refuses exactly the function body \<open>return (\<close>.
\<close>

definition bare :: "(string \<times> int) list host" where
  "bare =
     \<lparr>CorePlugins = [], CorePreprocessors = [], emptyObject = [],
      apply_patch = (\<lambda>target patch. AList.merge target patch),
      compiles = (\<lambda>body. body \<noteq> ''return ('')\<rparr>"

text \<open>A plugin whose attribute needs a key and may only stand on an \<open>input\<close> element.\<close>

definition strict :: "'v attributePlugin" where
  "strict =
     (plain ''model'')\<lparr>mustNotEmptyKey := True, allowedTagRegexps := Some [\<lambda>tag. tag = ''input'']\<rparr>"

text \<open>
  A preprocessor that writes \<open>aa\<close> for every \<open>a\<close>, so that its output matches its own pattern
  again; a handler that merges \<open>a = 1\<close> into the store; a handler that returns the teardown 7.
\<close>

definition doubling :: preprocesser where
  "doubling =
     \<lparr>pp_ref = 7,
      matchAll = (\<lambda>e. map (\<lambda>c. Some [(''whole'', [c])]) (filter (\<lambda>c. c = CHR ''a'') e)),
      replacer = (\<lambda>groups. ''aa'')\<rparr>"

definition merging :: "(string \<times> int) list attributePlugin" where
  "merging = (plain ''store'')\<lparr>onLoad := (\<lambda>ctx. \<lparr>merges = [[(''a'', 1)]], removal = None\<rparr>)\<rparr>"

definition listening :: "'v attributePlugin" where
  "listening = (plain ''on'')\<lparr>onLoad := (\<lambda>ctx. \<lparr>merges = [], removal = Some 7\<rparr>)\<rparr>"

text \<open>
  A button that has the teardown 3 from an earlier walk, under two plugins with the prefix
  \<open>on\<close>.
\<close>

definition button :: element where
  "button = Element 1 True ''e'' ''BUTTON'' [(''onClick'', ''go()'')] []"

definition primed :: "(string \<times> int) list datastar" where
  "primed = addRemoval 1 3 (started [listening, plain ''on''] [])"

text \<open>Two elements without an \<open>id\<close>, each with an attribute of the plugin \<open>text\<close>.\<close>

definition unlabelled :: element where
  "unlabelled =
     Element 1 True [] ''DIV'' [(''textA'', ''1'')] [Element 2 True [] ''P'' [(''textB'', ''2'')] []]"

section \<open>Registration\<close>

lemma register_missing:
  assumes "i < length ps"
    and "requiredPluginPrefixes (ps ! i) = Some rs"
    and "r \<in> set rs"
    and "r \<notin> known \<union> prefix ` set (take i ps)"
  shows "\<exists>q m. register ps known acc = Inl (PluginRequires q m)"
  using assms
proof (induction ps arbitrary: i known acc)
  case Nil
  then show ?case by simp
next
  case (Cons p ps)
  show ?case
  proof (cases "case requiredPluginPrefixes p of None \<Rightarrow> None | Some rs \<Rightarrow> find (\<lambda>r. r \<notin> known) rs")
    case (Some m)
    then show ?thesis by simp
  next
    case None
    have "i \<noteq> 0"
    proof
      assume "i = 0"
      with Cons.prems have "requiredPluginPrefixes p = Some rs" "r \<in> set rs" "r \<notin> known"
        by simp_all
      with None show False by (simp add: find_None_iff)
    qed
    then obtain j where j: "i = Suc j" by (cases i) simp_all
    with Cons.prems have "j < length ps" "requiredPluginPrefixes (ps ! j) = Some rs"
      "r \<notin> insert (prefix p) known \<union> prefix ` set (take j ps)"
      by simp_all
    from Cons.IH [OF this(1) this(2) \<open>r \<in> set rs\<close> this(3)] None show ?thesis
      by simp
  qed
qed

lemma register_satisfied:
  assumes "\<forall>i < length ps. \<forall>rs. requiredPluginPrefixes (ps ! i) = Some rs \<longrightarrow>
             set rs \<subseteq> known \<union> prefix ` set (take i ps)"
  shows "register ps known acc = Inr (acc @ ps)"
  using assms
proof (induction ps arbitrary: known acc)
  case Nil
  then show ?case by simp
next
  case (Cons p ps)
  from Cons.prems [rule_format, of 0] have here:
    "(case requiredPluginPrefixes p of None \<Rightarrow> None | Some rs \<Rightarrow> find (\<lambda>r. r \<notin> known) rs) = None"
    by (auto simp: find_None_iff split: option.splits)
  have "\<forall>i < length ps. \<forall>rs. requiredPluginPrefixes (ps ! i) = Some rs \<longrightarrow>
          set rs \<subseteq> insert (prefix p) known \<union> prefix ` set (take i ps)"
  proof (intro allI impI)
    fix i rs
    assume "i < length ps" "requiredPluginPrefixes (ps ! i) = Some rs"
    with Cons.prems [rule_format, of "Suc i" rs] show
      "set rs \<subseteq> insert (prefix p) known \<union> prefix ` set (take i ps)"
      by auto
  qed
  from Cons.IH [OF this] here show ?case by simp
qed

lemma register_not_empty_error: "register ps known acc \<noteq> Inl NoPluginsProvided"
  by (induction ps arbitrary: known acc) (auto split: option.splits)

text \<open>
  C4. If some plugin of the combined list (built-ins, then the user's plugins) requires a
  prefix that no plugin strictly earlier in the list has, the constructor throws
  \<open>Plugin ... requires plugin ...\<close>. Only the earlier entries count: the plugins at and after
  the position are never looked at.
\<close>

theorem constructor_requires_earlier:
  assumes "i < length (CorePlugins h @ user)"
    and "requiredPluginPrefixes ((CorePlugins h @ user) ! i) = Some rs"
    and "r \<in> set rs"
    and "r \<notin> prefix ` set (take i (CorePlugins h @ user))"
  shows "\<exists>q m. constructor h user = Inl (PluginRequires q m)"
proof -
  from assms(1) have nonempty: "CorePlugins h @ user \<noteq> []" by auto
  from assms(4) have "r \<notin> {} \<union> prefix ` set (take i (CorePlugins h @ user))" by simp
  from register_missing [OF assms(1) assms(2) assms(3) this]
  obtain q m where "register (CorePlugins h @ user) {} [] = Inl (PluginRequires q m)" by blast
  with nonempty show ?thesis by (simp add: constructor_def Let_def)
qed

text \<open>The plugin \<open>b\<close> requires \<open>a\<close> and is listed before the plugin \<open>a\<close>.\<close>

theorem constructor_requires_earlier_witness:
  "\<exists>q m. constructor bare [(plain ''b'')\<lparr>requiredPluginPrefixes := Some [''a'']\<rparr>, plain ''a'']
           = Inl (PluginRequires q m)"
  using constructor_requires_earlier
    [of 0 bare "[(plain ''b'')\<lparr>requiredPluginPrefixes := Some [''a'']\<rparr>, plain ''a'']" "[''a'']" "''a''"]
  by (simp add: bare_def)

text \<open>
  C8, as the code has it. The constructor throws \<open>No plugins provided\<close> exactly when the
  combined list, built-ins followed by the user's plugins, is empty. With an empty user
  list that is the case only when there are no built-ins.
\<close>

theorem constructor_no_plugins_iff:
  "constructor h user = Inl NoPluginsProvided \<longleftrightarrow> CorePlugins h @ user = []"
proof
  assume "constructor h user = Inl NoPluginsProvided"
  then show "CorePlugins h @ user = []"
    using register_not_empty_error [of "CorePlugins h @ user" "{}" "[]"]
    by (auto simp: constructor_def Let_def split: if_splits sum.splits)
next
  assume "CorePlugins h @ user = []"
  then show "constructor h user = Inl NoPluginsProvided"
    by (simp add: constructor_def)
qed

theorem constructor_no_plugins_iff_witness:
  "constructor bare [] = Inl NoPluginsProvided"
  using constructor_no_plugins_iff [of bare "[]"] by (simp add: bare_def)

text \<open>
  C8 as stated fails: with one built-in plugin and an empty user list the constructor
  returns a dispatcher.
\<close>

theorem constructor_empty_user_list_counterexample:
  "constructor (bare\<lparr>CorePlugins := [plain ''x'']\<rparr>) [] = Inr (started [plain ''x''] [])"
  by (simp add: constructor_def bare_def plain_def started_def)

text \<open>
  C3, as the code has it. The constructor never compares the prefixes of two plugins:
  whenever the combined list is not empty and every required prefix is the prefix of an
  earlier plugin, the constructor succeeds and registers every plugin of the list in
  order, whether or not some of them share a prefix.
\<close>

theorem constructor_accepts:
  assumes "CorePlugins h @ user \<noteq> []"
    and "\<forall>i < length (CorePlugins h @ user). \<forall>rs.
           requiredPluginPrefixes ((CorePlugins h @ user) ! i) = Some rs \<longrightarrow>
           set rs \<subseteq> prefix ` set (take i (CorePlugins h @ user))"
  shows "constructor h user = Inr (started (CorePlugins h @ user) (emptyObject h))"
proof -
  from assms(2) have "register (CorePlugins h @ user) {} [] = Inr ([] @ (CorePlugins h @ user))"
    by (intro register_satisfied) simp
  with assms(1) show ?thesis by (simp add: constructor_def started_def)
qed

text \<open>Two plugins with the prefix \<open>x\<close>, the second requiring the prefix they share.\<close>

theorem constructor_accepts_witness:
  "constructor bare [plain ''x'', (plain ''x'')\<lparr>requiredPluginPrefixes := Some [''x'']\<rparr>]
     = Inr (started [plain ''x'', (plain ''x'')\<lparr>requiredPluginPrefixes := Some [''x'']\<rparr>] [])"
  using constructor_accepts
    [of bare "[plain ''x'', (plain ''x'')\<lparr>requiredPluginPrefixes := Some [''x'']\<rparr>]"]
  by (simp add: bare_def plain_def less_Suc_eq)

text \<open>
  C3 as stated fails: the second of two plugins with the prefix \<open>x\<close> is registered, after
  the first.
\<close>

theorem constructor_duplicate_prefix_counterexample:
  "constructor bare [plain ''x'', plain ''x''] = Inr (started [plain ''x'', plain ''x''] [])"
  by (simp add: constructor_def bare_def plain_def started_def)

section \<open>The removal registry\<close>

lemma count_list_distinct: "distinct xs \<Longrightarrow> count_list xs x = (if x \<in> set xs then 1 else 0)"
  by (induction xs) auto

lemma distinct_teardowns: "distinct (teardowns s el)"
  by (simp add: teardowns_def split: option.splits)

text \<open>
  C9. Flushing an element twice in a row leaves the state the first flush left: the second
  flush finds no entry. Together the two flushes invoke the teardowns registered for the
  element, in order and nothing else, and each of them once.
\<close>

theorem flush_twice:
  "cleanupElementRemovals el (cleanupElementRemovals el s) = cleanupElementRemovals el s
   \<and> events (cleanupElementRemovals el (cleanupElementRemovals el s))
       = events s @ map (Removal el) (teardowns s el)
   \<and> removals (cleanupElementRemovals el s) el = None
   \<and> count_list (teardowns s el) f = (if f \<in> set (teardowns s el) then 1 else 0)"
  using distinct_teardowns [of s el]
  by (auto simp: cleanupElementRemovals_def teardowns_def count_list_distinct split: option.splits)

text \<open>The teardown 8 was returned twice for the element 1, the teardown 7 once.\<close>

theorem flush_twice_witness:
  "events (cleanupElementRemovals 1 (cleanupElementRemovals 1
      (addRemoval 1 8 (addRemoval 1 7 (addRemoval 1 8 (started [] (0::nat)))))))
   = [Removal 1 8, Removal 1 7]"
  using flush_twice [of 1 "addRemoval 1 8 (addRemoval 1 7 (addRemoval 1 8 (started [] (0::nat))))" 7]
  by (simp add: addRemoval_def started_def teardowns_def cleanupElementRemovals_def)

section \<open>Validation\<close>

lemma check_tag_with_id: "check_tag p (with_id i el) k = check_tag p el k"
  by (cases "allowedTagRegexps p") (simp_all add: check_tag_def with_id_def)

lemma lower_DIV: "toLowerCase ''DIV'' = ''div''"
  by code_simp

text \<open>
  C5, as the code has it. For an attribute whose name starts with the plugin's prefix the
  checks run in the order tag allow-list, key requirement, modifier allow-list, expression
  requirement, and the first that fails is the error thrown: a tag that is not allowed
  throws whatever the key is; a key violation throws when the tag passes; a modifier
  violation throws when tag and key pass; an expression violation throws when the three
  before pass; and when all four pass nothing is thrown.
\<close>

theorem validation_order:
  assumes "startsWith dsKey (prefix p)"
  shows "(check_tag p el dsKey = Some e \<longrightarrow>
            fst (process_attribute h p pi el (dsKey, expression) ident s) = Throw e)
       \<and> (check_tag p el dsKey = None \<and> check_key p dsKey = Some e \<longrightarrow>
            fst (process_attribute h p pi el (dsKey, expression) ident s) = Throw e)
       \<and> (check_tag p el dsKey = None \<and> check_key p dsKey = None
            \<and> check_modifiers p dsKey = Some e \<longrightarrow>
            fst (process_attribute h p pi el (dsKey, expression) ident s) = Throw e)
       \<and> (check_tag p el dsKey = None \<and> check_key p dsKey = None
            \<and> check_modifiers p dsKey = None \<and> check_expression p dsKey expression = Some e \<longrightarrow>
            fst (process_attribute h p pi el (dsKey, expression) ident s) = Throw e)
       \<and> (check_tag p el dsKey = None \<and> check_key p dsKey = None
            \<and> check_modifiers p dsKey = None \<and> check_expression p dsKey expression = None \<longrightarrow>
            fst (process_attribute h p pi el (dsKey, expression) ident s) \<noteq> Throw e)"
  using assms
  by (simp add: process_attribute_def validate_def check_tag_with_id Let_def split: prod.splits)

text \<open>A \<open>DIV\<close> with \<open>data-model\<close>: the tag is not allowed and the key is empty.\<close>

theorem validation_order_witness:
  "fst (process_attribute bare strict 0 (Element 1 True ''e'' ''DIV'' [(''model'', ''x'')] [])
         (''model'', ''x'') ''e'' (started [strict] [])) = Throw (TagNotAllowed ''DIV'' ''model'')"
  using validation_order [of "''model''" strict "Element 1 True ''e'' ''DIV'' [(''model'', ''x'')] []"
     "TagNotAllowed ''DIV'' ''model''" bare 0 "''x''" "''e''" "started [strict] []"]
  by (simp add: strict_def plain_def startsWith_def check_tag_def lower_DIV Let_def)

text \<open>
  C5 as stated fails: on that element the key requirement and the tag allow-list are both
  violated, and the error that leaves \<open>applyPlugins\<close> is the one of the tag.
\<close>

theorem validation_order_counterexample:
  "fst (applyPlugins bare (Element 1 True ''e'' ''DIV'' [(''model'', ''x'')] []) (started [strict] []))
     = Some (TagNotAllowed ''DIV'' ''model'')
   \<and> check_key (strict :: (string \<times> int) list attributePlugin) ''model''
     = Some (MustNotEmptyKey ''model'')"
  by (simp add: applyPlugins_def started_def callback_def cleanupElementRemovals_def
      process_attribute_def strict_def plain_def startsWith_def assign_id_def validate_def
      check_tag_def with_id_def lower_DIV check_key_def split_key_def Let_def)

section \<open>Preprocessing\<close>

lemma run_processors_spec:
  assumes "run_processors procs applied e runs = (A, e', R)"
    and "distinct runs" and "set runs \<subseteq> applied"
  shows "distinct R \<and> set R \<subseteq> A \<and> A = applied \<union> pp_ref ` set procs
         \<and> set R = set runs \<union> (pp_ref ` set procs - applied)"
  using assms
proof (induction procs arbitrary: applied e runs)
  case Nil
  then show ?case by auto
next
  case (Cons q procs)
  show ?case
  proof (cases "pp_ref q \<in> applied")
    case True
    with Cons.prems have "run_processors procs applied e runs = (A, e', R)" by simp
    from Cons.IH [OF this Cons.prems(2) Cons.prems(3)] True show ?thesis by auto
  next
    case False
    with Cons.prems have run:
      "run_processors procs (insert (pp_ref q) applied) (rewrite q e) (runs @ [pp_ref q]) = (A, e', R)"
      by simp
    from False Cons.prems have "distinct (runs @ [pp_ref q])" "set (runs @ [pp_ref q]) \<subseteq> insert (pp_ref q) applied"
      by auto
    from Cons.IH [OF run this] False show ?thesis by auto
  qed
qed

text \<open>
  C7. While one attribute occurrence is processed, the rewrite of a preprocessor is run
  once if the preprocessor is among the core-wide or the plugin's own preprocessors,
  however often it is listed there, and not at all otherwise. One run finds all the
  matches with a single \<open>matchAll\<close> before its first replacement, and makes one replacement
  for each of them: the pattern is never tried on what the run wrote.
\<close>

theorem preprocess_once:
  "count_list (snd (snd (preprocess h p expression))) r
     = (if r \<in> pp_ref ` set (CorePreprocessors h @ (case preprocessors p of None \<Rightarrow> [] | Some ps \<Rightarrow> ps))
        then 1 else 0)"
proof -
  obtain A e' R where run: "preprocess h p expression = (A, e', R)"
    by (cases "preprocess h p expression") auto
  then have "run_processors (CorePreprocessors h @ (case preprocessors p of None \<Rightarrow> [] | Some ps \<Rightarrow> ps))
       {} expression [] = (A, e', R)"
    by (simp add: preprocess_def)
  from run_processors_spec [OF this] have "distinct R"
    "set R = pp_ref ` set (CorePreprocessors h @ (case preprocessors p of None \<Rightarrow> [] | Some ps \<Rightarrow> ps))"
    by auto
  with run show ?thesis by (simp add: count_list_distinct)
qed

text \<open>
  The preprocessor \<open>doubling\<close> writes \<open>aa\<close> for every \<open>a\<close>, so its output matches its pattern
  again; it is listed core-wide and by the plugin. The expression \<open>a\<close> becomes \<open>aa\<close>.
\<close>

theorem preprocess_once_witness:
  "preprocess (bare\<lparr>CorePreprocessors := [doubling]\<rparr>) ((plain ''x'')\<lparr>preprocessors := Some [doubling]\<rparr>) ''a''
     = ({7}, ''aa'', [7])"
  using preprocess_once [of "bare\<lparr>CorePreprocessors := [doubling]\<rparr>" "(plain ''x'')\<lparr>preprocessors := Some [doubling]\<rparr>" "''a''" 7]
  by (simp add: preprocess_def bare_def plain_def doubling_def rewrite_def whole_of_def replace_def startsWith_def)

section \<open>Unfolding the dispatcher on an instance\<close>

lemmas run_defs = applyPlugins_def started_def callback_def cleanupElementRemovals_def
      process_attribute_def plain_def bare_def startsWith_def assign_id_def validate_def
      check_tag_def check_key_def check_modifiers_def check_expression_def
      preprocess_def fnContent_def Let_def invoke_def mergeStore_def addRemoval_def
      split_key_def normalise_key_def modifiersArr_def modifier_map_def with_id_def quiet_def

lemma numeral_string_0: "numeral_string 0 = ''0''"
  by code_simp
lemma numeral_string_1: "numeral_string (Suc 0) = ''1''"
  by code_simp
lemma lowerChar_C: "lowerChar CHR ''C'' = CHR ''c''"
  by code_simp
lemma lowerChar_A: "lowerChar CHR ''A'' = CHR ''a''"
  by code_simp
lemma lowerChar_B: "lowerChar CHR ''B'' = CHR ''b''"
  by code_simp

section \<open>Compilation failures\<close>

text \<open>
  C2 at an element with two attributes of the same plugin, the first of which does not
  compile, and with a child. The failure is logged with the element's \<open>id\<close> and the function
  body, and the \<open>return\<close> of line 194 leaves the callback: the handler is never called for
  the second attribute, \<open>textB\<close>, while the walk goes on to the child, whose handler is called.
\<close>

theorem compile_failure_abandons_element:
  "(case applyPlugins bare
           (Element 1 True ''e'' ''DIV'' [(''textA'', ''(''), (''textB'', ''1'')]
              [Element 2 True ''k'' ''P'' [(''textC'', ''2'')] []])
           (started [plain ''text''] [])
    of (err, el, s) \<Rightarrow> (err, events s))
   = (None, [ConsoleErrorException ''return ('',
             ConsoleError (error_message ''return ('' ''e'' ''DIV''),
             OnLoad 0 \<lparr>ctx_store = 0, ctx_el = Element 2 True ''k'' ''P'' [(''textC'', ''2'')] [],
                       ctx_key = ''c'', ctx_expression = ''2'',
                       ctx_expressionFn = Some ''return 2'', ctx_modifiers = []\<rparr>])"
  by (simp add: run_defs lowerChar_C)

section \<open>Handlers, the store and the trace\<close>

lemma merges_fold:
  "events (foldl (\<lambda>t patch. mergeStore h patch t) s ps) = events s
   \<and> removals (foldl (\<lambda>t patch. mergeStore h patch t) s ps) = removals s
   \<and> missingIDNext (foldl (\<lambda>t patch. mergeStore h patch t) s ps) = missingIDNext s
   \<and> parentID (foldl (\<lambda>t patch. mergeStore h patch t) s ps) = parentID s
   \<and> plugins (foldl (\<lambda>t patch. mergeStore h patch t) s ps) = plugins s"
  by (induction ps arbitrary: s) (simp_all add: mergeStore_def Let_def)

lemma merges_fold_heap:
  "store_live s \<Longrightarrow>
     store_live (foldl (\<lambda>t patch. mergeStore h patch t) s ps)
   \<and> take (length (heap s)) (heap (foldl (\<lambda>t patch. mergeStore h patch t) s ps)) = heap s
   \<and> length (heap s) \<le> length (heap (foldl (\<lambda>t patch. mergeStore h patch t) s ps))"
proof (induction ps arbitrary: s)
  case Nil
  then show ?case by simp
next
  case (Cons patch ps)
  have live: "store_live (mergeStore h patch s)"
    by (simp add: store_live_def mergeStore_def Let_def)
  have len: "length (heap (mergeStore h patch s)) = Suc (length (heap s))"
    and pre: "take (length (heap s)) (heap (mergeStore h patch s)) = heap s"
    by (simp_all add: mergeStore_def Let_def)
  let ?t = "foldl (\<lambda>t patch. mergeStore h patch t) (mergeStore h patch s) ps"
  from Cons.IH [OF live] have ih: "store_live ?t"
    "take (length (heap (mergeStore h patch s))) (heap ?t) = heap (mergeStore h patch s)"
    "length (heap (mergeStore h patch s)) \<le> length (heap ?t)"
    by simp_all
  have "take (length (heap s)) (heap ?t)
          = take (length (heap s)) (take (length (heap (mergeStore h patch s))) (heap ?t))"
    by (simp add: len min_def)
  also have "\<dots> = heap s" by (simp only: ih(2) pre)
  finally show ?case using ih len by simp
qed

lemma invoke_frame:
  "events (invoke h p pi el ctx s) = events s @ [OnLoad pi ctx]
   \<and> missingIDNext (invoke h p pi el ctx s) = missingIDNext s
   \<and> parentID (invoke h p pi el ctx s) = parentID s
   \<and> plugins (invoke h p pi el ctx s) = plugins s"
  by (simp add: invoke_def Let_def addRemoval_def merges_fold split: option.splits)

lemma teardowns_addRemoval:
  "set (teardowns (addRemoval el f s) e) = set (teardowns s e) \<union> (if e = el then {f} else {})"
  by (auto simp: teardowns_def addRemoval_def split: option.splits)

lemma teardowns_cong: "removals s = removals t \<Longrightarrow> teardowns s e = teardowns t e"
  by (simp add: teardowns_def)

lemma invoke_teardowns:
  "set (teardowns (invoke h p pi el ctx s) e)
     = set (teardowns s e) \<union> (if e = ref el then set_option (removal (onLoad p ctx)) else {})"
proof -
  let ?s2 = "foldl (\<lambda>t patch. mergeStore h patch t) (s\<lparr>events := events s @ [OnLoad pi ctx]\<rparr>) (merges (onLoad p ctx))"
  have "removals ?s2 = removals s" by (simp add: merges_fold)
  then have same: "teardowns ?s2 e = teardowns s e" by (rule teardowns_cong)
  show ?thesis
  proof (cases "removal (onLoad p ctx)")
    case None
    then show ?thesis using same by (simp add: invoke_def Let_def)
  next
    case (Some f)
    then have "invoke h p pi el ctx s = addRemoval (ref el) f ?s2" by (simp add: invoke_def Let_def)
    then show ?thesis using same Some by (simp add: teardowns_addRemoval)
  qed
qed

lemma invoke_heap:
  "store_live s \<Longrightarrow>
     store_live (invoke h p pi el ctx s)
   \<and> take (length (heap s)) (heap (invoke h p pi el ctx s)) = heap s"
  using merges_fold_heap [of "s\<lparr>events := events s @ [OnLoad pi ctx]\<rparr>" h "merges (onLoad p ctx)"]
  by (simp add: invoke_def Let_def addRemoval_def store_live_def split: option.splits)

lemma assign_id_frame:
  "assign_id el ident s = (ident1, s1) \<Longrightarrow>
     removals s1 = removals s \<and> store s1 = store s \<and> heap s1 = heap s
     \<and> parentID s1 = parentID s \<and> plugins s1 = plugins s
     \<and> (ident \<noteq> [] \<longrightarrow> ident1 = ident \<and> s1 = s)
     \<and> (ident = [] \<longrightarrow> ident1 = missing_id s (missingIDNext s)
           \<and> missingIDNext s1 = Suc (missingIDNext s)
           \<and> events s1 = events s @ [AssignId (ref el) ident1])"
  by (auto simp: assign_id_def missing_id_def Let_def split: if_splits)

lemma process_attribute_cases:
  assumes "process_attribute h p pi el attr ident s = (fl, ident1, s2)"
  shows "(\<not> startsWith (fst attr) (prefix p) \<and> fl = Continue \<and> ident1 = ident \<and> s2 = s)
       \<or> (startsWith (fst attr) (prefix p) \<and>
           (\<exists>s1. assign_id el ident s = (ident1, s1) \<and>
              ((\<exists>e. fl = Throw e \<and> s2 = s1)
             \<or> (\<exists>c m. fl = Return \<and> s2 = s1\<lparr>events := events s1 @ [ConsoleErrorException c, ConsoleError m]\<rparr>)
             \<or> (\<exists>ctx. fl = Continue \<and> ctx_store ctx = store s1 \<and> s2 = invoke h p pi el ctx s1))))"
proof (cases "startsWith (fst attr) (prefix p)")
  case False
  with assms show ?thesis by (simp add: process_attribute_def Let_def)
next
  case True
  obtain i1 s1 where a: "assign_id el ident s = (i1, s1)" by (cases "assign_id el ident s") auto
  show ?thesis
  proof (cases "validate p (with_id i1 el) (fst attr) (snd attr)")
    case (Some e)
    with assms True a show ?thesis by (auto simp: process_attribute_def Let_def)
  next
    case None
    with assms True a show ?thesis
      apply (auto simp: process_attribute_def Let_def split: if_splits)
         apply (rule exI, rule conjI [rotated], rule refl, simp)+
      done
  qed
qed

section \<open>The walk\<close>

lemma siblings_invariant:
  assumes each: "\<And>c s err c' s'. c \<in> set cs \<Longrightarrow> P s \<Longrightarrow> walkDownDOM cb c s = (err, c', s') \<Longrightarrow> P s'"
  shows "P s \<Longrightarrow> walkSiblings cb cs s = (err, cs', s') \<Longrightarrow> P s'"
  using each
proof (induction cs arbitrary: s err cs' s')
  case Nil
  then show ?case by simp
next
  case (Cons c cs)
  obtain e1 c1 s1 where w: "walkDownDOM cb c s = (e1, c1, s1)"
    by (cases "walkDownDOM cb c s") auto
  from Cons.prems(3) [OF _ Cons.prems(1) w] have p1: "P s1" by simp
  show ?case
  proof (cases e1)
    case (Some e)
    with Cons.prems(2) w p1 show ?thesis by simp
  next
    case None
    obtain e2 cs2 s2 where r: "walkSiblings cb cs s1 = (e2, cs2, s2)"
      by (cases "walkSiblings cb cs s1") auto
    have "P s2"
    proof (rule Cons.IH [OF p1 r])
      fix d t err d' t'
      assume "d \<in> set cs" "P t" "walkDownDOM cb d t = (err, d', t')"
      then show "P t'" using Cons.prems(3) [of d t err d' t'] by simp
    qed
    with Cons.prems(2) w None r show ?thesis by simp
  qed
qed

lemma walk_invariant:
  assumes step: "\<And>el s err i s'. P s \<Longrightarrow> cb el s = (err, i, s') \<Longrightarrow> P s'"
  shows "P s \<Longrightarrow> walkDownDOM cb el s = (err, el', s') \<Longrightarrow> P s'"
proof (induction el arbitrary: s err el' s')
  case (Element r w i t d cs)
  show ?case
  proof (cases w)
    case False
    with Element.prems show ?thesis by simp
  next
    case True
    obtain e1 i1 s1 where c: "cb (Element r w i t d cs) s = (e1, i1, s1)"
      by (cases "cb (Element r w i t d cs) s") auto
    from step [OF Element.prems(1) c] have p1: "P s1" .
    show ?thesis
    proof (cases e1)
      case (Some e)
      with Element.prems(2) True c p1 show ?thesis by simp
    next
      case None
      obtain e2 cs2 s2 where r: "walkSiblings cb cs s1 = (e2, cs2, s2)"
        by (cases "walkSiblings cb cs s1") auto
      have "P s2"
        by (rule siblings_invariant [where P = P, OF _ p1 r]) (rule Element.IH)
      with Element.prems(2) True c None r show ?thesis by simp
    qed
  qed
qed

lemma passes_invariant:
  assumes step: "\<And>p pi el s err i s'. p \<in> set ps \<Longrightarrow> n \<le> pi \<Longrightarrow> P s \<Longrightarrow> callback h p pi el s = (err, i, s') \<Longrightarrow> P s'"
  shows "P s \<Longrightarrow> passes h ps n root s = (err, root', s') \<Longrightarrow> P s'"
  using step
proof (induction ps arbitrary: n root s)
  case Nil
  then show ?case by simp
next
  case (Cons p ps)
  obtain e1 r1 s1 where w: "walkDownDOM (callback h p n) root s = (e1, r1, s1)"
    by (cases "walkDownDOM (callback h p n) root s") auto
  have p1: "P s1"
  proof (rule walk_invariant [where P = P and cb = "callback h p n", OF _ Cons.prems(1) w])
    fix el t err i t'
    assume "P t" "callback h p n el t = (err, i, t')"
    then show "P t'" using Cons.prems(3) [of p n t el err i t'] by simp
  qed
  show ?case
  proof (cases e1)
    case (Some e)
    with Cons.prems(2) w p1 show ?thesis by simp
  next
    case None
    with Cons.prems(2) w have r: "passes h ps (Suc n) r1 s1 = (err, root', s')" by simp
    show ?thesis
    proof (rule Cons.IH [OF p1 r])
      fix q pi el t err i t'
      assume "q \<in> set ps" "Suc n \<le> pi" "P t" "callback h q pi el t = (err, i, t')"
      then show "P t'" using Cons.prems(3) [of q pi t el err i t'] by simp
    qed
  qed
qed

lemma contexts_append [simp]: "contexts (xs @ ys) = contexts xs @ contexts ys"
  by (simp add: contexts_def)

lemma assigned_append [simp]: "assigned (xs @ ys) = assigned xs @ assigned ys"
  by (simp add: assigned_def)

lemma returned_append [simp]: "returned p (xs @ ys) = returned p xs \<union> returned p ys"
  by (simp add: returned_def)

lemma observe_simps [simp]:
  "contexts [] = []" "assigned [] = []" "returned p [] = {}"
  "contexts (OnLoad pi ctx # evs) = ctx # contexts evs"
  "contexts (AssignId el i # evs) = contexts evs"
  "contexts (Removal el f # evs) = contexts evs"
  "contexts (ConsoleErrorException c # evs) = contexts evs"
  "contexts (ConsoleError m # evs) = contexts evs"
  "assigned (OnLoad pi ctx # evs) = assigned evs"
  "assigned (AssignId el i # evs) = i # assigned evs"
  "assigned (Removal el f # evs) = assigned evs"
  "assigned (ConsoleErrorException c # evs) = assigned evs"
  "assigned (ConsoleError m # evs) = assigned evs"
  "is_Removal (Removal el f)" "\<not> is_Removal (OnLoad pi ctx)" "\<not> is_Removal (AssignId el i)"
  "\<not> is_Removal (ConsoleErrorException c)" "\<not> is_Removal (ConsoleError m)"
  by (simp_all add: contexts_def assigned_def returned_def is_Removal_def)

lemma returned_single:
  "returned p [OnLoad pi ctx] = set_option (removal (onLoad p ctx))"
  by (simp add: returned_def)

lemma returned_no_contexts: "contexts evs = [] \<Longrightarrow> returned p evs = {}"
  by (simp add: returned_def)

lemma removal_map [simp]:
  "filter is_Removal (map (Removal el) fs) = map (Removal el) fs"
  "contexts (map (Removal el) fs) = []"
  "assigned (map (Removal el) fs) = []"
  by (induction fs) simp_all

lemma missing_id_cong: "parentID s = parentID t \<Longrightarrow> missing_id s = missing_id t"
  by (rule ext) (simp add: missing_id_def)

lemma missing_id_nonempty: "missing_id s n \<noteq> []"
  by (simp add: missing_id_def)

lemma assign_id_trace:
  assumes "assign_id el ident s = (i1, s1)"
  shows "\<exists>a. events s1 = events s @ a \<and> filter is_Removal a = [] \<and> contexts a = []
           \<and> (if ident = []
               then i1 = missing_id s (missingIDNext s) \<and> missingIDNext s1 = Suc (missingIDNext s)
                    \<and> assigned a = [i1]
               else i1 = ident \<and> missingIDNext s1 = missingIDNext s \<and> assigned a = [])"
proof (cases "ident = []")
  case True
  with assms have "events s1 = events s @ [AssignId (ref el) i1]"
    "i1 = missing_id s (missingIDNext s)" "missingIDNext s1 = Suc (missingIDNext s)"
    by (auto simp: assign_id_def missing_id_def Let_def)
  with True show ?thesis by (intro exI [of _ "[AssignId (ref el) i1]"]) simp
next
  case False
  with assms have "s1 = s" "i1 = ident" by (auto simp: assign_id_def)
  with False show ?thesis by (intro exI [of _ "[]"]) simp
qed

lemma process_attribute_summary:
  assumes "process_attribute h p pi el attr ident s = (fl, i1, s2)"
  shows "\<exists>evs. events s2 = events s @ evs
      \<and> filter is_Removal evs = []
      \<and> list_all (\<lambda>ctx. ctx_store ctx = store s) (contexts evs)
      \<and> (\<forall>e. set (teardowns s2 e) = set (teardowns s e) \<union> (if e = ref el then returned p evs else {}))
      \<and> parentID s2 = parentID s \<and> plugins s2 = plugins s
      \<and> (if ident = [] \<and> startsWith (fst attr) (prefix p)
          then i1 = missing_id s (missingIDNext s) \<and> missingIDNext s2 = Suc (missingIDNext s)
               \<and> assigned evs = [i1]
          else i1 = ident \<and> missingIDNext s2 = missingIDNext s \<and> assigned evs = [])
      \<and> (store_live s \<longrightarrow> store_live s2 \<and> take (length (heap s)) (heap s2) = heap s)"
proof (cases "startsWith (fst attr) (prefix p)")
  case False
  with process_attribute_cases [OF assms] have "fl = Continue" "i1 = ident" "s2 = s" by auto
  with False show ?thesis by (intro exI [of _ "[]"]) simp
next
  case True
  with process_attribute_cases [OF assms] obtain s1 where
    a: "assign_id el ident s = (i1, s1)" and
    alt: "(\<exists>e. fl = Throw e \<and> s2 = s1)
        \<or> (\<exists>c m. fl = Return \<and> s2 = s1\<lparr>events := events s1 @ [ConsoleErrorException c, ConsoleError m]\<rparr>)
        \<or> (\<exists>ctx. fl = Continue \<and> ctx_store ctx = store s1 \<and> s2 = invoke h p pi el ctx s1)"
    by auto
  from assign_id_frame [OF a] have fr: "removals s1 = removals s" "store s1 = store s"
    "heap s1 = heap s" "parentID s1 = parentID s" "plugins s1 = plugins s" by simp_all
  from fr(1) have td: "\<And>e. teardowns s1 e = teardowns s e" by (rule teardowns_cong)
  from fr have live: "store_live s1 = store_live s" by (simp add: store_live_def)
  from assign_id_trace [OF a] obtain a where
    ev: "events s1 = events s @ a" "filter is_Removal a = []" "contexts a = []" and
    ids: "if ident = []
          then i1 = missing_id s (missingIDNext s) \<and> missingIDNext s1 = Suc (missingIDNext s)
               \<and> assigned a = [i1]
          else i1 = ident \<and> missingIDNext s1 = missingIDNext s \<and> assigned a = []"
    by blast
  from alt consider
    (throw) e where "fl = Throw e" "s2 = s1"
  | (return) c m where "fl = Return"
      "s2 = s1\<lparr>events := events s1 @ [ConsoleErrorException c, ConsoleError m]\<rparr>"
  | (continue) ctx where "fl = Continue" "ctx_store ctx = store s1" "s2 = invoke h p pi el ctx s1"
    by blast
  then show ?thesis
  proof cases
    case throw
    with True ev ids fr td live show ?thesis
      by (intro exI [of _ a]) (simp add: returned_no_contexts split: if_splits)
  next
    case return
    have "teardowns s2 = teardowns s1"
      by (rule ext) (simp add: return teardowns_def)
    with return True ev ids fr td live show ?thesis
      by (intro exI [of _ "a @ [ConsoleErrorException c, ConsoleError m]"])
         (simp add: returned_no_contexts store_live_def split: if_splits)
  next
    case continue
    from invoke_frame [of h p pi el ctx s1] continue have
      iv: "events s2 = events s1 @ [OnLoad pi ctx]" "missingIDNext s2 = missingIDNext s1"
        "parentID s2 = parentID s1" "plugins s2 = plugins s1" by simp_all
    from invoke_teardowns [of h p pi el ctx s1] continue have
      it: "\<And>e. set (teardowns s2 e) = set (teardowns s1 e) \<union>
             (if e = ref el then set_option (removal (onLoad p ctx)) else {})" by simp
    from invoke_heap [of s1 h p pi el ctx] continue have
      ih: "store_live s1 \<longrightarrow> store_live s2 \<and> take (length (heap s1)) (heap s2) = heap s1" by simp
    from continue True ev ids fr td live iv it ih show ?thesis
      by (intro exI [of _ "a @ [OnLoad pi ctx]"])
         (simp add: returned_no_contexts returned_single split: if_splits)
  qed
qed

lemma matching_simps [simp]:
  "matching p [] = False"
  "matching p (attr # attrs) = (startsWith (fst attr) (prefix p) \<or> matching p attrs)"
  by (simp_all add: matching_def)

lemma process_attribute_skip:
  "\<not> startsWith (fst attr) (prefix p) \<Longrightarrow> process_attribute h p pi el attr ident s = (Continue, ident, s)"
  by (simp add: process_attribute_def Let_def)

lemma process_attributes_summary:
  assumes "process_attributes h p pi el attrs ident s = (err, i', s')"
  shows "\<exists>evs. events s' = events s @ evs
      \<and> filter is_Removal evs = []
      \<and> (\<forall>e. set (teardowns s' e) = set (teardowns s e) \<union> (if e = ref el then returned p evs else {}))
      \<and> parentID s' = parentID s \<and> plugins s' = plugins s
      \<and> (if ident = [] \<and> matching p attrs
          then i' = missing_id s (missingIDNext s) \<and> missingIDNext s' = Suc (missingIDNext s)
               \<and> assigned evs = [i']
          else i' = ident \<and> missingIDNext s' = missingIDNext s \<and> assigned evs = [])
      \<and> (store_live s \<longrightarrow> store_live s')"
  using assms
proof (induction attrs arbitrary: ident s)
  case Nil
  then show ?case by (intro exI [of _ "[]"]) simp
next
  case (Cons attr attrs)
  obtain fl i1 s1 where step: "process_attribute h p pi el attr ident s = (fl, i1, s1)"
    by (cases "process_attribute h p pi el attr ident s") auto
  from process_attribute_summary [OF step] obtain evs1 where
    e1: "events s1 = events s @ evs1" "filter is_Removal evs1 = []" and
    t1: "\<And>e. set (teardowns s1 e) = set (teardowns s e) \<union> (if e = ref el then returned p evs1 else {})" and
    f1: "parentID s1 = parentID s" "plugins s1 = plugins s" and
    i1: "if ident = [] \<and> startsWith (fst attr) (prefix p)
          then i1 = missing_id s (missingIDNext s) \<and> missingIDNext s1 = Suc (missingIDNext s)
               \<and> assigned evs1 = [i1]
          else i1 = ident \<and> missingIDNext s1 = missingIDNext s \<and> assigned evs1 = []" and
    l1: "store_live s \<longrightarrow> store_live s1"
    by blast
  have stop: "fl \<noteq> Continue \<Longrightarrow> startsWith (fst attr) (prefix p)"
    using step process_attribute_skip [of attr p h pi el ident s] by auto
  show ?case
  proof (cases "fl = Continue")
    case False
    with Cons.prems step have "i' = i1" "s' = s1" by (cases fl; simp)+
    with e1 t1 f1 i1 l1 stop [OF False] show ?thesis
      by (intro exI [of _ evs1]) (simp split: if_splits)
  next
    case True
    with Cons.prems step have rest: "process_attributes h p pi el attrs i1 s1 = (err, i', s')" by simp
    from f1(1) have mid: "missing_id s1 = missing_id s" by (rule missing_id_cong)
    from Cons.IH [OF rest] obtain evs2 where
      e2: "events s' = events s1 @ evs2" "filter is_Removal evs2 = []" and
      t2: "\<And>e. set (teardowns s' e) = set (teardowns s1 e) \<union> (if e = ref el then returned p evs2 else {})" and
      f2: "parentID s' = parentID s1" "plugins s' = plugins s1" and
      i2: "if i1 = [] \<and> matching p attrs
            then i' = missing_id s1 (missingIDNext s1) \<and> missingIDNext s' = Suc (missingIDNext s1)
                 \<and> assigned evs2 = [i']
            else i' = i1 \<and> missingIDNext s' = missingIDNext s1 \<and> assigned evs2 = []" and
      l2: "store_live s1 \<longrightarrow> store_live s'"
      by blast
    have ids: "if ident = [] \<and> matching p (attr # attrs)
          then i' = missing_id s (missingIDNext s) \<and> missingIDNext s' = Suc (missingIDNext s)
               \<and> assigned (evs1 @ evs2) = [i']
          else i' = ident \<and> missingIDNext s' = missingIDNext s \<and> assigned (evs1 @ evs2) = []"
      using i1 i2 mid missing_id_nonempty [of s "missingIDNext s"]
      by (auto split: if_splits)
    have td: "\<forall>e. set (teardowns s' e) = set (teardowns s e) \<union> (if e = ref el then returned p (evs1 @ evs2) else {})"
      using t1 t2 by auto
    from e1 e2 f1 f2 l1 l2 ids td show ?thesis
      by (intro exI [of _ "evs1 @ evs2"]) simp
  qed
qed

lemma cleanup_frame:
  "events (cleanupElementRemovals el s) = events s @ map (Removal el) (teardowns s el)
   \<and> teardowns (cleanupElementRemovals el s) e = (if e = el then [] else teardowns s e)
   \<and> parentID (cleanupElementRemovals el s) = parentID s
   \<and> plugins (cleanupElementRemovals el s) = plugins s
   \<and> missingIDNext (cleanupElementRemovals el s) = missingIDNext s
   \<and> store (cleanupElementRemovals el s) = store s
   \<and> heap (cleanupElementRemovals el s) = heap s"
  by (simp add: cleanupElementRemovals_def teardowns_def split: option.splits)

lemma callback_summary:
  assumes "callback h p pi el s = (err, i', s')"
  shows "\<exists>evs. events s' = events s @ (if pi = 0 then map (Removal (ref el)) (teardowns s (ref el)) else []) @ evs
      \<and> filter is_Removal evs = []
      \<and> (\<forall>e. set (teardowns s' e) = (if pi = 0 \<and> e = ref el then {} else set (teardowns s e))
                \<union> (if e = ref el then returned p evs else {}))
      \<and> parentID s' = parentID s \<and> plugins s' = plugins s
      \<and> (if el_id el = [] \<and> matching p (dataset el)
          then i' = missing_id s (missingIDNext s) \<and> missingIDNext s' = Suc (missingIDNext s)
               \<and> assigned evs = [i']
          else i' = el_id el \<and> missingIDNext s' = missingIDNext s \<and> assigned evs = [])
      \<and> (store_live s \<longrightarrow> store_live s')"
proof -
  let ?s0 = "if pi = 0 then cleanupElementRemovals (ref el) s else s"
  from assms have run: "process_attributes h p pi el (dataset el) (el_id el) ?s0 = (err, i', s')"
    by (simp add: callback_def)
  have s0: "events ?s0 = events s @ (if pi = 0 then map (Removal (ref el)) (teardowns s (ref el)) else [])"
    "\<And>e. set (teardowns ?s0 e) = (if pi = 0 \<and> e = ref el then {} else set (teardowns s e))"
    "parentID ?s0 = parentID s" "plugins ?s0 = plugins s" "missingIDNext ?s0 = missingIDNext s"
    "store_live ?s0 = store_live s"
    by (simp_all add: cleanup_frame store_live_def)
  from s0(3) have mid: "missing_id ?s0 = missing_id s" by (rule missing_id_cong)
  from process_attributes_summary [OF run] obtain evs where
    "events s' = events ?s0 @ evs" "filter is_Removal evs = []"
    "\<forall>e. set (teardowns s' e) = set (teardowns ?s0 e) \<union> (if e = ref el then returned p evs else {})"
    "parentID s' = parentID ?s0" "plugins s' = plugins ?s0"
    "if el_id el = [] \<and> matching p (dataset el)
      then i' = missing_id ?s0 (missingIDNext ?s0) \<and> missingIDNext s' = Suc (missingIDNext ?s0)
           \<and> assigned evs = [i']
      else i' = el_id el \<and> missingIDNext s' = missingIDNext ?s0 \<and> assigned evs = []"
    "store_live ?s0 \<longrightarrow> store_live s'"
    by blast
  then show ?thesis
    unfolding s0 mid by (intro exI [of _ evs]) simp
qed

section \<open>Teardowns in a dispatch pass\<close>

lemma callback_later_pass:
  assumes "0 < pi" and "callback h p pi el s = (err, i', s')"
  shows "filter is_Removal (events s') = filter is_Removal (events s)
       \<and> (\<forall>e. set (teardowns s e) \<subseteq> set (teardowns s' e))"
proof -
  from callback_summary [OF assms(2)] assms(1) obtain evs where
    "events s' = events s @ evs" "filter is_Removal evs = []"
    "\<forall>e. set (teardowns s' e) = set (teardowns s e) \<union> (if e = ref el then returned p evs else {})"
    by auto
  then show ?thesis by auto
qed

lemma later_passes:
  assumes "0 < n" and "passes h ps n root s = (err, root', s')"
  shows "filter is_Removal (events s') = filter is_Removal (events s)
       \<and> (\<forall>e. set (teardowns s e) \<subseteq> set (teardowns s' e))"
proof -
  let ?P = "\<lambda>t. filter is_Removal (events t) = filter is_Removal (events s)
                \<and> (\<forall>e. set (teardowns s e) \<subseteq> set (teardowns t e))"
  have "?P s'"
  proof (rule passes_invariant [where P = ?P and n = n, OF _ _ assms(2)])
    show "?P s" by simp
  next
    fix p pi el t err i t'
    assume "n \<le> pi" "?P t" "callback h p pi el t = (err, i, t')"
    with assms(1) callback_later_pass [of pi h p el t err i t'] show "?P t'"
      by (auto dest: subsetD)
  qed
  then show ?thesis .
qed

lemma flushed_simps [simp]:
  "flushed s [] = []"
  "flushed s (x # xs) = map (Removal (ref x)) (teardowns s (ref x)) @ flushed s xs"
  "flushed s (xs @ ys) = flushed s xs @ flushed s ys"
  by (simp_all add: flushed_def)

lemma teardowns_at: "removals t e = removals s e \<Longrightarrow> teardowns t e = teardowns s e"
  by (simp add: teardowns_def)

lemma invoke_other: "e \<noteq> ref el \<Longrightarrow> removals (invoke h p pi el ctx s) e = removals s e"
  by (simp add: invoke_def Let_def addRemoval_def merges_fold split: option.splits)

lemma process_attribute_other:
  assumes "process_attribute h p pi el attr ident s = (fl, i1, s2)" and "e \<noteq> ref el"
  shows "removals s2 e = removals s e"
  using process_attribute_cases [OF assms(1)] assms(2)
  by (auto dest!: assign_id_frame simp: invoke_other)

lemma process_attributes_other:
  assumes "process_attributes h p pi el attrs ident s = (err, i', s')" and "e \<noteq> ref el"
  shows "removals s' e = removals s e"
  using assms
proof (induction attrs arbitrary: ident s)
  case Nil
  then show ?case by simp
next
  case (Cons attr attrs)
  obtain fl i1 s1 where step: "process_attribute h p pi el attr ident s = (fl, i1, s1)"
    by (cases "process_attribute h p pi el attr ident s") auto
  from process_attribute_other [OF step Cons.prems(2)] have one: "removals s1 e = removals s e" .
  show ?case
  proof (cases fl)
    case Continue
    with Cons.prems(1) step have "process_attributes h p pi el attrs i1 s1 = (err, i', s')" by simp
    from Cons.IH [OF this Cons.prems(2)] one show ?thesis by simp
  next
    case Return
    with Cons.prems(1) step one show ?thesis by simp
  next
    case (Throw x)
    with Cons.prems(1) step one show ?thesis by simp
  qed
qed

lemma callback_other:
  assumes "callback h p pi el s = (err, i', s')" and "e \<noteq> ref el"
  shows "removals s' e = removals s e"
proof -
  let ?s0 = "if pi = 0 then cleanupElementRemovals (ref el) s else s"
  from assms(1) have "process_attributes h p pi el (dataset el) (el_id el) ?s0 = (err, i', s')"
    by (simp add: callback_def)
  from process_attributes_other [OF this assms(2)] assms(2) show ?thesis
    by (simp add: cleanupElementRemovals_def split: option.splits if_splits)
qed

lemma siblings_flush:
  assumes each: "\<And>c t err c' t'. c \<in> set cs \<Longrightarrow> walkDownDOM (callback h p 0) c t = (err, c', t') \<Longrightarrow>
       distinct (map ref (visited c)) \<Longrightarrow>
       (\<forall>x \<in> set (visited c). removals t (ref x) = removals s (ref x)) \<Longrightarrow>
       (\<forall>e. e \<notin> ref ` set (visited c) \<longrightarrow> removals t' e = removals t e)
       \<and> (\<exists>evs. events t' = events t @ evs
              \<and> (err = None \<longrightarrow> filter is_Removal evs = flushed s (visited c)))"
  shows "walkSiblings (callback h p 0) cs t = (err, cs', t') \<Longrightarrow>
       distinct (map ref (concat (map visited cs))) \<Longrightarrow>
       (\<forall>x \<in> set (concat (map visited cs)). removals t (ref x) = removals s (ref x)) \<Longrightarrow>
       (\<forall>e. e \<notin> ref ` set (concat (map visited cs)) \<longrightarrow> removals t' e = removals t e)
       \<and> (\<exists>evs. events t' = events t @ evs
              \<and> (err = None \<longrightarrow> filter is_Removal evs = flushed s (concat (map visited cs))))"
  using each
proof (induction cs arbitrary: t err cs' t')
  case Nil
  then show ?case by simp
next
  case (Cons c cs)
  obtain e1 c1 t1 where w: "walkDownDOM (callback h p 0) c t = (e1, c1, t1)"
    by (cases "walkDownDOM (callback h p 0) c t") auto
  from Cons.prems(2) have dc: "distinct (map ref (visited c))"
    and dcs: "distinct (map ref (concat (map visited cs)))"
    and disj: "ref ` set (visited c) \<inter> ref ` set (concat (map visited cs)) = {}"
    by auto
  from Cons.prems(3) have hc: "\<forall>x \<in> set (visited c). removals t (ref x) = removals s (ref x)"
    by simp
  from Cons.prems(4) [OF _ w dc hc] obtain evs1 where
    f1: "\<forall>e. e \<notin> ref ` set (visited c) \<longrightarrow> removals t1 e = removals t e" and
    e1: "events t1 = events t @ evs1" and
    r1: "e1 = None \<longrightarrow> filter is_Removal evs1 = flushed s (visited c)"
    by auto
  show ?case
  proof (cases e1)
    case (Some e)
    with Cons.prems(1) w have "err = Some e" "t' = t1" by simp_all
    with f1 e1 show ?thesis by auto
  next
    case None
    obtain e2 cs2 t2 where r: "walkSiblings (callback h p 0) cs t1 = (e2, cs2, t2)"
      by (cases "walkSiblings (callback h p 0) cs t1") auto
    with Cons.prems(1) w None have res: "err = e2" "t' = t2" by simp_all
    have hcs: "\<forall>x \<in> set (concat (map visited cs)). removals t1 (ref x) = removals s (ref x)"
    proof
      fix x assume x: "x \<in> set (concat (map visited cs))"
      with disj have "ref x \<notin> ref ` set (visited c)" by blast
      with f1 have "removals t1 (ref x) = removals t (ref x)" by simp
      also from Cons.prems(3) x have "\<dots> = removals s (ref x)" by simp
      finally show "removals t1 (ref x) = removals s (ref x)" .
    qed
    have "(\<forall>e. e \<notin> ref ` set (concat (map visited cs)) \<longrightarrow> removals t2 e = removals t1 e)
       \<and> (\<exists>evs. events t2 = events t1 @ evs
              \<and> (e2 = None \<longrightarrow> filter is_Removal evs = flushed s (concat (map visited cs))))"
    proof (rule Cons.IH [OF r dcs hcs])
      fix d u err d' u'
      assume "d \<in> set cs" "walkDownDOM (callback h p 0) d u = (err, d', u')"
        "distinct (map ref (visited d))"
        "\<forall>x \<in> set (visited d). removals u (ref x) = removals s (ref x)"
      then show "(\<forall>e. e \<notin> ref ` set (visited d) \<longrightarrow> removals u' e = removals u e)
       \<and> (\<exists>evs. events u' = events u @ evs
              \<and> (err = None \<longrightarrow> filter is_Removal evs = flushed s (visited d)))"
        using Cons.prems(4) [of d u err d' u'] by simp
    qed
    then obtain evs2 where
      f2: "\<forall>e. e \<notin> ref ` set (concat (map visited cs)) \<longrightarrow> removals t2 e = removals t1 e" and
      e2: "events t2 = events t1 @ evs2" and
      r2: "e2 = None \<longrightarrow> filter is_Removal evs2 = flushed s (concat (map visited cs))"
      by auto
    have "\<forall>e. e \<notin> ref ` set (concat (map visited (c # cs))) \<longrightarrow> removals t2 e = removals t e"
    proof (intro allI impI)
      fix e assume "e \<notin> ref ` set (concat (map visited (c # cs)))"
      then have "e \<notin> ref ` set (visited c)" "e \<notin> ref ` set (concat (map visited cs))"
        by auto
      with f1 f2 show "removals t2 e = removals t e" by simp
    qed
    moreover from e1 e2 r1 r2 None have "events t2 = events t @ (evs1 @ evs2)
       \<and> (e2 = None \<longrightarrow> filter is_Removal (evs1 @ evs2) = flushed s (concat (map visited (c # cs))))"
      by simp
    ultimately show ?thesis unfolding res by blast
  qed
qed

lemma walk_flush:
  "walkDownDOM (callback h p 0) el t = (err, el', t') \<Longrightarrow>
       distinct (map ref (visited el)) \<Longrightarrow>
       (\<forall>x \<in> set (visited el). removals t (ref x) = removals s (ref x)) \<Longrightarrow>
       (\<forall>e. e \<notin> ref ` set (visited el) \<longrightarrow> removals t' e = removals t e)
       \<and> (\<exists>evs. events t' = events t @ evs
              \<and> (err = None \<longrightarrow> filter is_Removal evs = flushed s (visited el)))"
proof (induction el arbitrary: t err el' t')
  case (Element r w i tg d cs)
  show ?case
  proof (cases w)
    case False
    with Element.prems(1) have "err = None" "t' = t" by simp_all
    with False show ?thesis by simp
  next
    case True
    let ?el = "Element r w i tg d cs"
    obtain e1 i1 t1 where c: "callback h p 0 ?el t = (e1, i1, t1)"
      by (cases "callback h p 0 ?el t") auto
    from callback_summary [OF c] obtain evs0 where
      ev0: "events t1 = events t @ map (Removal r) (teardowns t r) @ evs0"
        "filter is_Removal evs0 = []"
      by auto
    from Element.prems(3) True have "removals t r = removals s r" by simp
    then have td: "teardowns t r = teardowns s r" by (rule teardowns_at)
    have f0: "\<And>e. e \<noteq> r \<Longrightarrow> removals t1 e = removals t e"
      using callback_other [OF c] by simp
    from Element.prems(2) True have dcs: "distinct (map ref (concat (map visited cs)))"
      and notin: "r \<notin> ref ` set (concat (map visited cs))"
      by auto
    show ?thesis
    proof (cases e1)
      case (Some e)
      with Element.prems(1) True c have "err = Some e" "t' = t1" by simp_all
      with f0 ev0 True show ?thesis by auto
    next
      case None
      obtain e2 cs2 t2 where rr: "walkSiblings (callback h p 0) cs t1 = (e2, cs2, t2)"
        by (cases "walkSiblings (callback h p 0) cs t1") auto
      with Element.prems(1) True c None have res: "err = e2" "t' = t2" by simp_all
      have hcs: "\<forall>x \<in> set (concat (map visited cs)). removals t1 (ref x) = removals s (ref x)"
      proof
        fix x assume x: "x \<in> set (concat (map visited cs))"
        with notin have "ref x \<noteq> r" by blast
        then have "removals t1 (ref x) = removals t (ref x)" by (rule f0)
        also from Element.prems(3) True x have "\<dots> = removals s (ref x)" by auto
        finally show "removals t1 (ref x) = removals s (ref x)" .
      qed
      have "(\<forall>e. e \<notin> ref ` set (concat (map visited cs)) \<longrightarrow> removals t2 e = removals t1 e)
       \<and> (\<exists>evs. events t2 = events t1 @ evs
              \<and> (e2 = None \<longrightarrow> filter is_Removal evs = flushed s (concat (map visited cs))))"
        by (rule siblings_flush [OF _ rr dcs hcs]) (rule Element.IH)
      then obtain evs2 where
        f2: "\<forall>e. e \<notin> ref ` set (concat (map visited cs)) \<longrightarrow> removals t2 e = removals t1 e" and
        e2: "events t2 = events t1 @ evs2" and
        r2: "e2 = None \<longrightarrow> filter is_Removal evs2 = flushed s (concat (map visited cs))"
        by auto
      have "\<forall>e. e \<notin> ref ` set (visited ?el) \<longrightarrow> removals t2 e = removals t e"
      proof (intro allI impI)
        fix e assume "e \<notin> ref ` set (visited ?el)"
        with True have "e \<noteq> r" "e \<notin> ref ` set (concat (map visited cs))" by auto
        with f0 f2 show "removals t2 e = removals t e" by simp
      qed
      moreover from ev0 e2 r2 td True have
        "events t2 = events t @ (map (Removal r) (teardowns s r) @ evs0 @ evs2)
         \<and> (e2 = None \<longrightarrow> filter is_Removal (map (Removal r) (teardowns s r) @ evs0 @ evs2)
               = flushed s (visited ?el))"
        by simp
      ultimately show ?thesis unfolding res by blast
    qed
  qed
qed

lemma passes_extend:
  "passes h ps n root s = (err, root', s') \<Longrightarrow> \<exists>evs. events s' = events s @ evs"
proof -
  assume run: "passes h ps n root s = (err, root', s')"
  let ?P = "\<lambda>t. \<exists>evs. events t = events s @ evs"
  show "?P s'"
  proof (rule passes_invariant [where P = ?P and n = n, OF _ _ run])
    show "?P s" by simp
  next
    fix p pi el t err i t'
    assume "?P t" "callback h p pi el t = (err, i, t')"
    then show "?P t'" using callback_summary [of h p pi el t err i t'] by auto
  qed
qed

lemma dispatch_flush:
  assumes "plugins s = p # ps" and "distinct (map ref (visited root))"
    and "applyPlugins h root s = (None, root', s')"
  shows "\<exists>evs. events s' = events s @ evs \<and> filter is_Removal evs = flushed s (visited root)"
proof -
  obtain e1 r1 t1 where w: "walkDownDOM (callback h p 0) root s = (e1, r1, t1)"
    by (cases "walkDownDOM (callback h p 0) root s") auto
  from assms(1,3) w have none: "e1 = None" and rest: "passes h ps (Suc 0) r1 t1 = (None, root', s')"
    by (auto simp: applyPlugins_def split: option.splits)
  from walk_flush [OF w assms(2), of s] none obtain evs1 where
    e1: "events t1 = events s @ evs1" "filter is_Removal evs1 = flushed s (visited root)"
    by auto
  from passes_extend [OF rest] obtain evs2 where e2: "events s' = events t1 @ evs2" by blast
  from later_passes [OF _ rest] have "filter is_Removal (events s') = filter is_Removal (events t1)"
    by simp
  with e2 have "filter is_Removal evs2 = []" by simp
  with e1 e2 show ?thesis by (intro exI [of _ "evs1 @ evs2"]) simp
qed

text \<open>
  C6. When the walk of the first plugin (index 0) visits an element, the teardowns
  registered for that element are invoked, in order, before anything else the visit does;
  the rest of the visit invokes no teardown, and when the visit ends the element's entry
  holds only the teardowns that the handlers returned during this visit, so the old entry
  was cleared. The walk of a later plugin (index above 0) invokes no teardown and clears
  no entry, for any element; hence in a dispatch pass no teardown is invoked after the
  first plugin's walk. And in a dispatch pass with at least one plugin that no error ends,
  over a document in which no element occurs twice, the teardowns invoked are those
  registered before the pass for the elements visited, each once, in document order.
\<close>

theorem flush_before_first_plugin:
  "(callback h p 0 el s = (err, ident, s1) \<longrightarrow>
      (\<exists>evs. events s1 = events s @ map (Removal (ref el)) (teardowns s (ref el)) @ evs
           \<and> filter is_Removal evs = []
           \<and> set (teardowns s1 (ref el)) = returned p evs))
   \<and> (0 < pi \<and> walkDownDOM (callback h q pi) root s = (err2, root2, s2) \<longrightarrow>
        filter is_Removal (events s2) = filter is_Removal (events s)
        \<and> (\<forall>e. set (teardowns s e) \<subseteq> set (teardowns s2 e)))
   \<and> (plugins s = p # ps \<and> walkDownDOM (callback h p 0) root s = (None, root1, t1)
        \<and> applyPlugins h root s = (err3, root3, s3) \<longrightarrow>
        filter is_Removal (events s3) = filter is_Removal (events t1)
        \<and> (\<forall>e. set (teardowns t1 e) \<subseteq> set (teardowns s3 e)))
   \<and> (plugins s = p # ps \<and> distinct (map ref (visited root))
        \<and> applyPlugins h root s = (None, root4, s4) \<longrightarrow>
        (\<exists>evs. events s4 = events s @ evs \<and> filter is_Removal evs = flushed s (visited root)))"
proof (intro conjI impI)
  assume "callback h p 0 el s = (err, ident, s1)"
  from callback_summary [OF this] obtain evs where
    "events s1 = events s @ map (Removal (ref el)) (teardowns s (ref el)) @ evs"
    "filter is_Removal evs = []"
    "\<forall>e. set (teardowns s1 e) = (if e = ref el then {} else set (teardowns s e))
                \<union> (if e = ref el then returned p evs else {})"
    by auto
  then show "\<exists>evs. events s1 = events s @ map (Removal (ref el)) (teardowns s (ref el)) @ evs
           \<and> filter is_Removal evs = []
           \<and> set (teardowns s1 (ref el)) = returned p evs"
    by (intro exI [of _ evs]) simp
next
  assume a: "0 < pi \<and> walkDownDOM (callback h q pi) root s = (err2, root2, s2)"
  let ?P = "\<lambda>t. filter is_Removal (events t) = filter is_Removal (events s)
                \<and> (\<forall>e. set (teardowns s e) \<subseteq> set (teardowns t e))"
  have "?P s2"
  proof (rule walk_invariant [where P = ?P and cb = "callback h q pi", OF _ _ conjunct2 [OF a]])
    show "?P s" by simp
  next
    fix el t err i t'
    assume "?P t" "callback h q pi el t = (err, i, t')"
    with a callback_later_pass [of pi h q el t err i t'] show "?P t'"
      by (auto dest: subsetD)
  qed
  then show "filter is_Removal (events s2) = filter is_Removal (events s)"
    "\<forall>e. set (teardowns s e) \<subseteq> set (teardowns s2 e)" by simp_all
next
  assume a: "plugins s = p # ps \<and> walkDownDOM (callback h p 0) root s = (None, root1, t1)
        \<and> applyPlugins h root s = (err3, root3, s3)"
  then have "passes h ps (Suc 0) root1 t1 = (err3, root3, s3)"
    by (auto simp: applyPlugins_def)
  from later_passes [OF _ this] show "filter is_Removal (events s3) = filter is_Removal (events t1)"
    "\<forall>e. set (teardowns t1 e) \<subseteq> set (teardowns s3 e)" by simp_all
next
  assume "plugins s = p # ps \<and> distinct (map ref (visited root))
        \<and> applyPlugins h root s = (None, root4, s4)"
  then show "\<exists>evs. events s4 = events s @ evs \<and> filter is_Removal evs = flushed s (visited root)"
    using dispatch_flush [of s p ps root h root4 s4] by simp
qed


text \<open>The button: one flush, in the first walk; the teardown 7 is left for the next pass.\<close>

theorem flush_before_first_plugin_witness:
  "filter is_Removal (events (snd (snd (applyPlugins bare button primed)))) = [Removal 1 3]
   \<and> teardowns (snd (snd (applyPlugins bare button primed))) 1 = [7]
   \<and> length (events (snd (snd (applyPlugins bare button primed)))) = 3"
  using flush_before_first_plugin [where h = bare and p = listening and el = button and s = primed
      and err = None and ident = "''e''"
      and ?s1.0 = "snd (snd (callback bare listening 0 button primed))"
      and pi = 1 and q = "plain ''on''" and root = button and ?err2.0 = None and ?root2.0 = button
      and ?s2.0 = "snd (snd (walkDownDOM (callback bare (plain ''on'') 1) button primed))"
      and ps = "[plain ''on'']" and ?root1.0 = button
      and ?t1.0 = "snd (snd (walkDownDOM (callback bare listening 0) button primed))"
      and ?err3.0 = None and ?root3.0 = button
      and ?s3.0 = "snd (snd (applyPlugins bare button primed))"
      and ?root4.0 = button
      and ?s4.0 = "snd (snd (applyPlugins bare button primed))"]
  by (simp add: run_defs listening_def teardowns_def lowerChar_C returned_def button_def primed_def
        flushed_def)

section \<open>Missing identifiers\<close>

lemma issued_started: "issued (started ps v)"
  by (simp add: issued_def started_def)

lemma callback_issued:
  assumes "callback h p pi el s = (err, i', s')" and "issued s"
  shows "issued s' \<and> missingIDNext s \<le> missingIDNext s' \<and> parentID s' = parentID s"
proof -
  from callback_summary [OF assms(1)] obtain evs where
    ev: "events s' = events s @ (if pi = 0 then map (Removal (ref el)) (teardowns s (ref el)) else []) @ evs"
    and par: "parentID s' = parentID s"
    and ids: "if el_id el = [] \<and> matching p (dataset el)
          then i' = missing_id s (missingIDNext s) \<and> missingIDNext s' = Suc (missingIDNext s)
               \<and> assigned evs = [i']
          else i' = el_id el \<and> missingIDNext s' = missingIDNext s \<and> assigned evs = []"
    by blast
  from par have mid: "missing_id s' = missing_id s" by (rule missing_id_cong)
  from ev have "assigned (events s') = assigned (events s) @ assigned evs" by simp
  with assms(2) ids mid par show ?thesis
    by (auto simp: issued_def split: if_splits)
qed

lemma renamed_both:
  "(\<And>a b. R a b \<Longrightarrow> R' a b) \<Longrightarrow> renamed R x y \<Longrightarrow> renamed R' x y"
  "(\<And>a b. R a b \<Longrightarrow> R' a b) \<Longrightarrow> renamed_list R xs ys \<Longrightarrow> renamed_list R' xs ys"
  by (induction R x y and R xs ys rule: renamed_renamed_list.induct) auto

lemma renamed_list_refl: "(\<And>c. c \<in> set cs \<Longrightarrow> renamed R c c) \<Longrightarrow> renamed_list R cs cs"
  by (induction cs) simp_all

lemma renamed_refl: "(\<And>a. R a a) \<Longrightarrow> renamed R x x"
  by (induction x) (simp add: renamed_list_refl)

lemma renamed_trans_both:
  "(\<And>a b c. R1 a b \<Longrightarrow> R2 b c \<Longrightarrow> R3 a c) \<Longrightarrow> renamed R1 x y \<Longrightarrow> renamed R2 y z \<Longrightarrow> renamed R3 x z"
  "(\<And>a b c. R1 a b \<Longrightarrow> R2 b c \<Longrightarrow> R3 a c) \<Longrightarrow> renamed_list R1 xs ys \<Longrightarrow> renamed_list R2 ys zs
     \<Longrightarrow> renamed_list R3 xs zs"
proof (induction R1 x y and R1 xs ys arbitrary: z and zs rule: renamed_renamed_list.induct)
  case (1 R r w i t d cs r' w' i' t' d' cs')
  then show ?case by (cases z) auto
next
  case (2 R)
  then show ?case by (cases zs) auto
next
  case (3 R c cs c' cs')
  then show ?case by (cases zs) auto
next
  case (4 R c' cs')
  then show ?case by simp
next
  case (5 R c cs)
  then show ?case by simp
qed

lemma id_step_refl: "id_step s lo hi a a"
  by (simp add: id_step_def)

lemma id_step_mono:
  "lo' \<le> lo \<Longrightarrow> hi \<le> hi' \<Longrightarrow> missing_id s' = missing_id s \<Longrightarrow> id_step s lo hi a b \<Longrightarrow> id_step s' lo' hi' a b"
  by (auto simp: id_step_def)

lemma id_step_trans:
  "lo \<le> mid \<Longrightarrow> mid \<le> hi \<Longrightarrow> id_step s lo mid a b \<Longrightarrow> id_step s mid hi b c \<Longrightarrow> id_step s lo hi a c"
  by (auto simp: id_step_def missing_id_nonempty)

lemma all_visited_conj_both:
  "all_visited P x \<Longrightarrow> all_visited Q x \<Longrightarrow> all_visited (\<lambda>e. P e \<and> Q e) x"
  "all_visited_list P xs \<Longrightarrow> all_visited_list Q xs \<Longrightarrow> all_visited_list (\<lambda>e. P e \<and> Q e) xs"
  by (induction P x and P xs rule: all_visited_all_visited_list.induct) (auto split: if_splits)

lemma all_visited_mono_both:
  "(\<And>e. P e \<Longrightarrow> Q e) \<Longrightarrow> all_visited P x \<Longrightarrow> all_visited Q x"
  "(\<And>e. P e \<Longrightarrow> Q e) \<Longrightarrow> all_visited_list P xs \<Longrightarrow> all_visited_list Q xs"
  by (induction P x and P xs rule: all_visited_all_visited_list.induct) (auto split: if_splits)

lemma all_visited_renamed_both:
  "(\<And>a b. R a b \<Longrightarrow> a \<noteq> [] \<Longrightarrow> b = a) \<Longrightarrow>
   (\<And>r w i t d cs i' cs'. Q (Element r w i t d cs) \<Longrightarrow> (i \<noteq> [] \<longrightarrow> i' = i) \<Longrightarrow> Q (Element r w i' t d cs')) \<Longrightarrow>
   renamed R x y \<Longrightarrow> all_visited Q x \<Longrightarrow> all_visited Q y"
  "(\<And>a b. R a b \<Longrightarrow> a \<noteq> [] \<Longrightarrow> b = a) \<Longrightarrow>
   (\<And>r w i t d cs i' cs'. Q (Element r w i t d cs) \<Longrightarrow> (i \<noteq> [] \<longrightarrow> i' = i) \<Longrightarrow> Q (Element r w i' t d cs')) \<Longrightarrow>
   renamed_list R xs ys \<Longrightarrow> all_visited_list Q xs \<Longrightarrow> all_visited_list Q ys"
proof (induction R x y and R xs ys rule: renamed_renamed_list.induct)
  case (1 R r w i t d cs r' w' i' t' d' cs')
  from "1.prems"(3) have eq: "r = r'" "w = w'" "t = t'" "d = d'" "R i i'" "renamed_list R cs cs'"
    by simp_all
  from "1.prems"(1) [OF eq(5)] have k: "i \<noteq> [] \<longrightarrow> i' = i" by simp
  show ?case
  proof (cases w)
    case False
    with eq show ?thesis by simp
  next
    case True
    with "1.prems"(4) have q: "Q (Element r w i t d cs)" "all_visited_list Q cs" by simp_all
    from "1.prems"(2) [OF q(1) k] have "Q (Element r w i' t d cs')" .
    moreover from "1.IH" [OF "1.prems"(1) "1.prems"(2) eq(6) q(2)] have "all_visited_list Q cs'" .
    ultimately show ?thesis using eq True by simp
  qed
qed auto

lemma id_step_cong: "missing_id s' = missing_id s \<Longrightarrow> id_step s' = id_step s"
  by (intro ext) (simp add: id_step_def)

lemma callback_id_step:
  assumes "callback h p pi el s = (err, i', s')"
  shows "parentID s' = parentID s \<and> missingIDNext s \<le> missingIDNext s'
       \<and> id_step s (missingIDNext s) (missingIDNext s') (el_id el) i'
       \<and> (matching p (dataset el) \<longrightarrow> i' \<noteq> [])"
proof -
  from callback_summary [OF assms] have
    "parentID s' = parentID s"
    "if el_id el = [] \<and> matching p (dataset el)
          then i' = missing_id s (missingIDNext s) \<and> missingIDNext s' = Suc (missingIDNext s)
          else i' = el_id el \<and> missingIDNext s' = missingIDNext s"
    by (auto split: if_splits)
  then show ?thesis
    by (auto simp: id_step_def missing_id_nonempty split: if_splits)
qed

lemma siblings_renamed:
  assumes each: "\<And>c s err c' s'. c \<in> set cs \<Longrightarrow> walkDownDOM (callback h p pi) c s = (err, c', s') \<Longrightarrow>
       parentID s' = parentID s \<and> missingIDNext s \<le> missingIDNext s'
       \<and> renamed (id_step s (missingIDNext s) (missingIDNext s')) c c'
       \<and> (err = None \<longrightarrow> all_visited (labelled p) c')"
  shows "walkSiblings (callback h p pi) cs s = (err, cs', s') \<Longrightarrow>
       parentID s' = parentID s \<and> missingIDNext s \<le> missingIDNext s'
       \<and> renamed_list (id_step s (missingIDNext s) (missingIDNext s')) cs cs'
       \<and> (err = None \<longrightarrow> all_visited_list (labelled p) cs')"
  using each
proof (induction cs arbitrary: s err cs' s')
  case Nil
  then show ?case by simp
next
  case (Cons c cs)
  obtain e1 c1 s1 where w: "walkDownDOM (callback h p pi) c s = (e1, c1, s1)"
    by (cases "walkDownDOM (callback h p pi) c s") auto
  from Cons.prems(2) [OF _ w] have
    g1: "parentID s1 = parentID s" "missingIDNext s \<le> missingIDNext s1" and
    r1: "renamed (id_step s (missingIDNext s) (missingIDNext s1)) c c1" and
    v1: "e1 = None \<longrightarrow> all_visited (labelled p) c1"
    by simp_all
  show ?case
  proof (cases e1)
    case (Some e)
    with Cons.prems(1) w have res: "err = Some e" "cs' = c1 # cs" "s' = s1" by simp_all
    have "renamed_list (id_step s (missingIDNext s) (missingIDNext s1)) cs cs"
      by (rule renamed_list_refl) (rule renamed_refl, rule id_step_refl)
    with res g1 r1 show ?thesis by simp
  next
    case None
    obtain e2 cs2 s2 where r: "walkSiblings (callback h p pi) cs s1 = (e2, cs2, s2)"
      by (cases "walkSiblings (callback h p pi) cs s1") auto
    with Cons.prems(1) w None have res: "err = e2" "cs' = c1 # cs2" "s' = s2" by simp_all
    have ih: "parentID s2 = parentID s1 \<and> missingIDNext s1 \<le> missingIDNext s2
       \<and> renamed_list (id_step s1 (missingIDNext s1) (missingIDNext s2)) cs cs2
       \<and> (e2 = None \<longrightarrow> all_visited_list (labelled p) cs2)"
    proof (rule Cons.IH [OF r])
      fix d t err d' t'
      assume "d \<in> set cs" "walkDownDOM (callback h p pi) d t = (err, d', t')"
      then show "parentID t' = parentID t \<and> missingIDNext t \<le> missingIDNext t'
       \<and> renamed (id_step t (missingIDNext t) (missingIDNext t')) d d'
       \<and> (err = None \<longrightarrow> all_visited (labelled p) d')"
        using Cons.prems(2) [of d t err d' t'] by simp
    qed
    from g1(1) have mid: "missing_id s1 = missing_id s" by (rule missing_id_cong)
    have a: "renamed (id_step s (missingIDNext s) (missingIDNext s2)) c c1"
      using r1 ih by (elim renamed_both(1) [rotated]) (auto elim: id_step_mono [rotated 3])
    have b: "renamed_list (id_step s (missingIDNext s) (missingIDNext s2)) cs cs2"
      using ih g1 mid
      by (elim conjE renamed_both(2) [rotated]) (auto elim: id_step_mono [rotated 3])
    from res g1 ih a b v1 None show ?thesis by simp
  qed
qed

lemma walk_renamed:
  "walkDownDOM (callback h p pi) el s = (err, el', s') \<Longrightarrow>
       parentID s' = parentID s \<and> missingIDNext s \<le> missingIDNext s'
       \<and> renamed (id_step s (missingIDNext s) (missingIDNext s')) el el'
       \<and> (err = None \<longrightarrow> all_visited (labelled p) el')"
proof (induction el arbitrary: s err el' s')
  case (Element r w i t d cs)
  show ?case
  proof (cases w)
    case False
    with Element.prems have "err = None" "el' = Element r w i t d cs" "s' = s" by simp_all
    with False show ?thesis by (simp add: renamed_list_refl renamed_refl id_step_refl)
  next
    case True
    obtain e1 i1 s1 where c: "callback h p pi (Element r w i t d cs) s = (e1, i1, s1)"
      by (cases "callback h p pi (Element r w i t d cs) s") auto
    from callback_id_step [OF c] have
      g1: "parentID s1 = parentID s" "missingIDNext s \<le> missingIDNext s1" and
      st: "id_step s (missingIDNext s) (missingIDNext s1) i i1" and
      lab: "matching p d \<longrightarrow> i1 \<noteq> []"
      by simp_all
    show ?thesis
    proof (cases e1)
      case (Some e)
      with Element.prems True c have res: "err = Some e" "el' = Element r w i1 t d cs" "s' = s1"
        by simp_all
      have "renamed_list (id_step s (missingIDNext s) (missingIDNext s1)) cs cs"
        by (rule renamed_list_refl) (rule renamed_refl, rule id_step_refl)
      with res g1 st show ?thesis by simp
    next
      case None
      obtain e2 cs2 s2 where r: "walkSiblings (callback h p pi) cs s1 = (e2, cs2, s2)"
        by (cases "walkSiblings (callback h p pi) cs s1") auto
      with Element.prems True c None have res: "err = e2" "el' = Element r w i1 t d cs2" "s' = s2"
        by simp_all
      have sib: "parentID s2 = parentID s1 \<and> missingIDNext s1 \<le> missingIDNext s2
         \<and> renamed_list (id_step s1 (missingIDNext s1) (missingIDNext s2)) cs cs2
         \<and> (e2 = None \<longrightarrow> all_visited_list (labelled p) cs2)"
        by (rule siblings_renamed [OF _ r]) (rule Element.IH)
      from g1(1) have mid: "missing_id s1 = missing_id s" by (rule missing_id_cong)
      have a: "id_step s (missingIDNext s) (missingIDNext s2) i i1"
        using st sib by (auto elim: id_step_mono [rotated 3])
      have b: "renamed_list (id_step s (missingIDNext s) (missingIDNext s2)) cs cs2"
        using sib g1 mid
        by (elim conjE renamed_both(2) [rotated]) (auto elim: id_step_mono [rotated 3])
      have "labelled p (Element r w i1 t d cs2)" using lab by (simp add: labelled_def)
      with res g1 sib a b True show ?thesis by simp
    qed
  qed
qed

lemma all_visited_True_both:
  "all_visited (\<lambda>x. True) x" "all_visited_list (\<lambda>x. True) xs"
  by (induction "\<lambda>x::element. True" x and "\<lambda>x::element. True" xs rule: all_visited_all_visited_list.induct) auto

lemma id_step_keeps: "id_step s lo hi a b \<Longrightarrow> a \<noteq> [] \<Longrightarrow> b = a"
  by (auto simp: id_step_def)

lemma labelled_stable:
  "labelled p (Element r w i t d cs) \<Longrightarrow> (i \<noteq> [] \<longrightarrow> i' = i) \<Longrightarrow> labelled p (Element r w i' t d cs')"
  by (auto simp: labelled_def split: if_splits)

lemma passes_renamed:
  "passes h ps n root s = (err, root', s') \<Longrightarrow>
       parentID s' = parentID s \<and> missingIDNext s \<le> missingIDNext s'
       \<and> renamed (id_step s (missingIDNext s) (missingIDNext s')) root root'
       \<and> (err = None \<longrightarrow> all_visited (\<lambda>x. list_all (\<lambda>p. labelled p x) ps) root')"
proof (induction ps arbitrary: n root s)
  case Nil
  then show ?case by (simp add: renamed_refl id_step_refl all_visited_True_both)
next
  case (Cons p ps)
  obtain e1 r1 s1 where w: "walkDownDOM (callback h p n) root s = (e1, r1, s1)"
    by (cases "walkDownDOM (callback h p n) root s") auto
  from walk_renamed [OF w] have
    g1: "parentID s1 = parentID s" "missingIDNext s \<le> missingIDNext s1" and
    r1: "renamed (id_step s (missingIDNext s) (missingIDNext s1)) root r1" and
    v1: "e1 = None \<longrightarrow> all_visited (labelled p) r1"
    by simp_all
  show ?case
  proof (cases e1)
    case (Some e)
    with Cons.prems w have "err = Some e" "root' = r1" "s' = s1" by simp_all
    with g1 r1 show ?thesis by simp
  next
    case None
    with Cons.prems w have rest: "passes h ps (Suc n) r1 s1 = (err, root', s')" by simp
    from Cons.IH [OF rest] have
      g2: "parentID s' = parentID s1" "missingIDNext s1 \<le> missingIDNext s'" and
      r2: "renamed (id_step s1 (missingIDNext s1) (missingIDNext s')) r1 root'" and
      v2: "err = None \<longrightarrow> all_visited (\<lambda>x. list_all (\<lambda>p. labelled p x) ps) root'"
      by simp_all
    from g1(1) have "missing_id s1 = missing_id s" by (rule missing_id_cong)
    then have "id_step s1 = id_step s" by (rule id_step_cong)
    with r2 have r2': "renamed (id_step s (missingIDNext s1) (missingIDNext s')) r1 root'" by simp
    have whole: "renamed (id_step s (missingIDNext s) (missingIDNext s')) root root'"
      by (rule renamed_trans_both(1) [OF _ r1 r2']) (rule id_step_trans [OF g1(2) g2(2)])
    have "all_visited (labelled p) root'"
    proof (rule all_visited_renamed_both(1) [OF _ _ r2'])
      fix a b
      assume "id_step s (missingIDNext s1) (missingIDNext s') a b" "a \<noteq> []"
      then show "b = a" by (rule id_step_keeps)
    next
      fix r w i t d cs i' cs'
      assume "labelled p (Element r w i t d cs)" "i \<noteq> [] \<longrightarrow> i' = i"
      then show "labelled p (Element r w i' t d cs')" by (rule labelled_stable)
    next
      show "all_visited (labelled p) r1" using v1 None by simp
    qed
    with v2 have "err = None \<longrightarrow> all_visited (\<lambda>x. list_all (\<lambda>p. labelled p x) (p # ps)) root'"
      by (auto dest: all_visited_conj_both(1))
    with g1 g2 whole show ?thesis by simp
  qed
qed

text \<open>
  C10. When the walk of a plugin visits an element that has an attribute starting with
  the plugin's prefix and whose \<open>id\<close> is empty, the \<open>id\<close> becomes \<open>ds-<parentID>-<n>\<close> for the
  current counter \<open>n\<close>, and the counter grows by one; in every other case the \<open>id\<close> and the
  counter stay as they are. For a whole dispatch pass: the document afterwards is the
  document before but for the \<open>id\<close>s, an \<open>id\<close> that was not empty is kept, and a new \<open>id\<close> is
  that of a counter between the counter before and the counter after; when the pass was
  not ended by an error, every visited element with an attribute of some plugin has an
  \<open>id\<close>; the counter never goes down and \<open>parentID\<close> stays; and over the dispatcher's
  lifetime the \<open>id\<close>s written are those of the counters 0, 1, 2, ... in this order.
\<close>

theorem missing_id_assigned:
  "(callback h p pi el s = (err, ident, s1) \<longrightarrow>
      (if el_id el = [] \<and> matching p (dataset el)
       then ident = ''ds-'' @ parentID s @ ''-'' @ numeral_string (missingIDNext s)
            \<and> missingIDNext s1 = Suc (missingIDNext s)
       else ident = el_id el \<and> missingIDNext s1 = missingIDNext s))
   \<and> (applyPlugins h root s = (err2, root2, s2) \<longrightarrow>
        renamed (id_step s (missingIDNext s) (missingIDNext s2)) root root2
        \<and> (err2 = None \<longrightarrow> all_visited (\<lambda>x. list_all (\<lambda>q. labelled q x) (plugins s)) root2)
        \<and> missingIDNext s \<le> missingIDNext s2 \<and> parentID s2 = parentID s
        \<and> (issued s \<longrightarrow> issued s2))"
proof (intro conjI impI)
  assume "callback h p pi el s = (err, ident, s1)"
  from callback_summary [OF this] show
    "if el_id el = [] \<and> matching p (dataset el)
       then ident = ''ds-'' @ parentID s @ ''-'' @ numeral_string (missingIDNext s)
            \<and> missingIDNext s1 = Suc (missingIDNext s)
       else ident = el_id el \<and> missingIDNext s1 = missingIDNext s"
    by (auto simp: missing_id_def split: if_splits)
next
  assume "applyPlugins h root s = (err2, root2, s2)"
  then have run: "passes h (plugins s) 0 root s = (err2, root2, s2)" by (simp add: applyPlugins_def)
  from passes_renamed [OF run] show
    "renamed (id_step s (missingIDNext s) (missingIDNext s2)) root root2"
    "missingIDNext s \<le> missingIDNext s2" "parentID s2 = parentID s"
    by simp_all
  {
    assume "err2 = None"
    with passes_renamed [OF run]
    show "all_visited (\<lambda>x. list_all (\<lambda>q. labelled q x) (plugins s)) root2" by simp
  }
  {
    assume iss: "issued s"
    let ?P = "\<lambda>t. issued t"
    show "issued s2"
    proof (rule passes_invariant [where P = ?P and n = 0, OF _ _ run])
      show "issued s" by (rule iss)
    next
      fix p pi el t err i t'
      assume "issued t" "callback h p pi el t = (err, i, t')"
      with callback_issued [of h p pi el t err i t'] show "issued t'" by auto
    qed
  }
qed

text \<open>The two elements get the \<open>id\<close>s of the counters 0 and 1.\<close>

theorem missing_id_assigned_witness:
  "fst (snd (applyPlugins bare unlabelled (started [plain ''text''] [])))
     = Element 1 True ''ds--0'' ''DIV'' [(''textA'', ''1'')]
         [Element 2 True ''ds--1'' ''P'' [(''textB'', ''2'')] []]
   \<and> missingIDNext (snd (snd (applyPlugins bare unlabelled (started [plain ''text''] [])))) = 2
   \<and> issued (snd (snd (applyPlugins bare unlabelled (started [plain ''text''] []))))"
  using issued_started [of "[plain ''text'']" "[] :: (string \<times> int) list"]
    missing_id_assigned [where h = bare and p = "plain ''text''" and pi = 0
       and el = unlabelled and s = "started [plain ''text''] []"
       and err = None and ident = "''ds--0''"
       and ?s1.0 = "snd (snd (callback bare (plain ''text'') 0 unlabelled (started [plain ''text''] [])))"
       and root = unlabelled and ?err2.0 = None
       and ?root2.0 = "fst (snd (applyPlugins bare unlabelled (started [plain ''text''] [])))"
       and ?s2.0 = "snd (snd (applyPlugins bare unlabelled (started [plain ''text''] [])))"]
  by (simp add: run_defs unlabelled_def numeral_string_0 numeral_string_1 lowerChar_A lowerChar_B)

section \<open>Merging into the store\<close>

lemma store_live_started: "store_live (started ps v)"
  by (simp add: store_live_def started_def)

lemma applyPlugins_store_live:
  assumes "store_live s" and "applyPlugins h root s = (err, root', s')"
  shows "store_live s'"
proof -
  from assms(2) have run: "passes h (plugins s) 0 root s = (err, root', s')"
    by (simp add: applyPlugins_def)
  show ?thesis
  proof (rule passes_invariant [where P = store_live and n = 0, OF _ assms(1) run])
    fix p pi el t err i t'
    assume "store_live t" "callback h p pi el t = (err, i, t')"
    then show "store_live t'" using callback_summary [of h p pi el t err i t'] by auto
  qed
qed

text \<open>
  C1, as the code has it. \<open>mergeStore\<close> makes a new store instance that holds the merge of
  the live value and the update, and points \<open>this.store\<close> at it, so the dispatcher itself
  refers to one instance only. The instances made before keep their values, and the
  handle in a context is the one that was live when the context was built: a context
  built before the merge still refers to the old instance.
\<close>

theorem mergeStore_replaces:
  assumes "store_live s"
  shows "store (mergeStore h patch s) = length (heap s)
       \<and> store (mergeStore h patch s) \<noteq> store s
       \<and> store_live (mergeStore h patch s)
       \<and> heap (mergeStore h patch s) ! store (mergeStore h patch s) = apply_patch h (heap s ! store s) patch
       \<and> take (length (heap s)) (heap (mergeStore h patch s)) = heap s
       \<and> list_all (\<lambda>ctx. ctx_store ctx = store s)
           (contexts (drop (length (events s))
              (events (snd (snd (process_attribute h p pi el attr ident s))))))"
proof -
  obtain fl i1 s2 where step: "process_attribute h p pi el attr ident s = (fl, i1, s2)"
    by (cases "process_attribute h p pi el attr ident s") auto
  from process_attribute_summary [OF step] obtain evs where
    "events s2 = events s @ evs" "list_all (\<lambda>ctx. ctx_store ctx = store s) (contexts evs)"
    by blast
  with step have "list_all (\<lambda>ctx. ctx_store ctx = store s)
           (contexts (drop (length (events s))
              (events (snd (snd (process_attribute h p pi el attr ident s))))))"
    by simp
  with assms show ?thesis
    by (simp add: mergeStore_def Let_def store_live_def)
qed

text \<open>Merging \<open>a = 1\<close> into the store of a dispatcher that has just been constructed.\<close>

theorem mergeStore_replaces_witness:
  "store (mergeStore bare [(''a'', 1)] (started [merging] [])) = 1
   \<and> heap (mergeStore bare [(''a'', 1)] (started [merging] [])) = [[], [(''a'', 1)]]"
  using mergeStore_replaces [of "started [merging] []" bare "[(''a'', 1)]" merging 0
     "Element 1 True ''e'' ''DIV'' [(''store'', ''{a:1}'')] []" "(''store'', ''{a:1}'')" "''e''"]
  by (simp add: store_live_def started_def mergeStore_def bare_def AList.merge_def)

text \<open>
  C1 as stated fails. The handler of \<open>data-store\<close> merges \<open>a = 1\<close> into the store. After the
  pass the context it was given still holds the handle 0, the live store is the instance
  1, and the instance 0 is empty as before.
\<close>

theorem merge_counterexample:
  "(case applyPlugins bare (Element 1 True ''e'' ''DIV'' [(''store'', ''{a:1}'')] []) (started [merging] [])
    of (err, el, s) \<Rightarrow> (map ctx_store (contexts (events s)), store s, heap s))
   = ([0], 1, [[], [(''a'', 1)]])"
  by (simp add: run_defs merging_def AList.merge_def)

end
